theory Spec2Isabelle
  imports Main "HOL-Library.Word"
begin

unbundle bit_operations_syntax

section \<open>Common types (fh\_comdef.h) and memory\<close>

text \<open>
  The sources are C.  \<open>unsigned char\<close> is an 8-bit word, \<open>uint16\<close> a 16-bit and \<open>uint32\<close>
  a 32-bit word; \<open>+\<close> and \<open>-\<close> on them wrap as in C.  \<open>size_t\<close> values that are only
  compared or handed to a copy are \<open>nat\<close>.  A buffer is a function from offsets to
  elements, so that an access beyond a declared length is still an access to some
  element and can be observed; a pointer into a buffer is an offset of type \<open>nat\<close>, and
  a pointer argument that may be \<open>NULL\<close> is an \<open>option\<close>.
\<close>

type_synonym byte = "8 word"
type_synonym uint16 = "16 word"
type_synonym uint32 = "32 word"
type_synonym mem = "nat \<Rightarrow> byte"

datatype fh_res_t =
    SUCCESS
  | INVALID_PARAMETER
  | NOT_SUPPORTED
  | TRANSPORT_TIMEOUT
  | OPEN_PORT_FAILED
  | CLOSE_PORT_ERROR
  | READ_PORT_TIMEOUT
  | READ_PORT_ERROR
  | WRITE_PORT_TIMEOUT
  | WRITE_PORT_ERROR
  | NOT_INITALIZED
  | SET_TIMEOUT_ERROR
  | FILE_IO
  | NO_MEMORY
  | TARGET_NAK

text \<open>
  \<open>load m off n\<close> are the \<open>n\<close> elements of \<open>m\<close> from offset \<open>off\<close>; \<open>store\<close> writes a list
  at an offset; \<open>memset\<close> fills a range; \<open>mem_of\<close> is a zero-filled buffer that starts
  with the given bytes.
\<close>

definition load :: "(nat \<Rightarrow> 'a) \<Rightarrow> nat \<Rightarrow> nat \<Rightarrow> 'a list" where
  "load m off n = map (\<lambda>i. m (off + i)) [0..<n]"

definition store :: "(nat \<Rightarrow> 'a) \<Rightarrow> nat \<Rightarrow> 'a list \<Rightarrow> (nat \<Rightarrow> 'a)" where
  "store m off bs = (\<lambda>i. if off \<le> i \<and> i < off + length bs then bs ! (i - off) else m i)"

definition memset :: "(nat \<Rightarrow> 'a) \<Rightarrow> nat \<Rightarrow> 'a \<Rightarrow> nat \<Rightarrow> (nat \<Rightarrow> 'a)" where
  "memset m off v n = (\<lambda>i. if off \<le> i \<and> i < off + n then v else m i)"

definition mem_of :: "byte list \<Rightarrow> mem" where
  "mem_of bs = store (\<lambda>_. 0) 0 bs"

text \<open>
  stringl/memscpy.c and stringl/memsmove.c: both copy \<open>min dst_size src_size\<close> elements
  and return that count.  The source range is read before the destination is written,
  which is \<open>memmove\<close>; \<open>memscpy\<close> is only called here on ranges that do not overlap.
\<close>

definition memscpy ::
  "(nat \<Rightarrow> 'a) \<Rightarrow> nat \<Rightarrow> nat \<Rightarrow> (nat \<Rightarrow> 'a) \<Rightarrow> nat \<Rightarrow> nat \<Rightarrow> nat \<times> (nat \<Rightarrow> 'a)" where
  "memscpy dst dst_off dst_size src src_off src_size =
     (let copy_size = (if dst_size \<le> src_size then dst_size else src_size)
      in (copy_size, store dst dst_off (load src src_off copy_size)))"

definition memsmove ::
  "(nat \<Rightarrow> 'a) \<Rightarrow> nat \<Rightarrow> nat \<Rightarrow> (nat \<Rightarrow> 'a) \<Rightarrow> nat \<Rightarrow> nat \<Rightarrow> nat \<times> (nat \<Rightarrow> 'a)" where
  "memsmove dst dst_off dst_size src src_off src_size =
     (let copy_size = (if dst_size \<le> src_size then dst_size else src_size)
      in (copy_size, store dst dst_off (load src src_off copy_size)))"

text \<open>Counting up and down in a word, as the loops below do.\<close>

lemma unat_inc_nz: "(x::'a::len word) + 1 \<noteq> 0 \<Longrightarrow> unat (x + 1) = Suc (unat x)"
  using unatSuc [of x] by (simp add: add.commute)

lemma unat_less_Suc: "(x::'a::len word) < y \<Longrightarrow> unat (x + 1) = Suc (unat x)"
  by unat_arith

lemma unat_dec_less: "(x::'a::len word) \<noteq> 0 \<Longrightarrow> unat (x - 1) < unat x"
  by (simp add: unat_minus_one unat_gt_0)

lemma unat_dec2_less: "(x::'a::len word) \<noteq> 1 \<Longrightarrow> unat (x - 2) < unat (x - 1)"
  using unat_dec_less [of "x - 1"] by simp

lemma unat_byte_less: "unat (x :: byte) < 256"
  using unsigned_less [of x, where ?'a = nat] by simp

section \<open>Consistent Overhead Byte Stuffing (fh\_cobs.c)\<close>

datatype fh_cobs_error_t =
    COBS_SUCCESS
  | COBS_ERROR_NULL_SRC_BUFFER
  | COBS_ERROR_NULL_DST_BUFFER
  | COBS_ERROR_INVALID_LENGTH
  | COBS_ERROR_INVALID_STUFFING
  | COBS_ERROR_DST_BUFFER_OVERFLOW

text \<open>
  What a call leaves behind: the returned length, \<open>*error\<close>, the destination buffer, and
  two observations the C code does not return but a safety claim needs: \<open>cobs_written\<close>
  is one more than the highest destination offset the call wrote (0 if it wrote nothing),
  \<open>cobs_read\<close> one more than the highest source offset it read.
\<close>

record cobs_result =
  cobs_return :: uint32
  cobs_error :: fh_cobs_error_t
  cobs_dst :: "mem option"
  cobs_written :: nat
  cobs_read :: nat

definition cobs_fail :: "fh_cobs_error_t \<Rightarrow> mem option \<Rightarrow> nat \<Rightarrow> nat \<Rightarrow> cobs_result" where
  "cobs_fail e dst wr rd =
     \<lparr>cobs_return = 0, cobs_error = e, cobs_dst = dst, cobs_written = wr, cobs_read = rd\<rparr>"

subsection \<open>fh\_cobs\_stuff\_bytes\<close>

text \<open>
  The local variables of the loop, in this order: \<open>index\<close>, \<open>encoded_value\<close>,
  \<open>encoded_value_ptr\<close> and \<open>dest_value_ptr\<close> (offsets from \<open>dst\<close>), \<open>stuffed_length\<close>, the
  destination buffer, and the write high-water mark.
\<close>

type_synonym stuff_vars = "uint32 \<times> byte \<times> nat \<times> nat \<times> uint32 \<times> mem \<times> nat"

text \<open>One pass through the body of the \<open>while\<close> loop, up to the overflow test.\<close>

definition fh_cobs_stuff_body :: "mem \<Rightarrow> uint32 \<Rightarrow> stuff_vars \<Rightarrow> stuff_vars" where
  "fh_cobs_stuff_body src src_length v =
     (case v of (index, encoded_value, encoded_value_ptr, dest_value_ptr, stuffed_length, dst, wr) \<Rightarrow>
        let (index, encoded_value, encoded_value_ptr, dst, wr) =
              (if encoded_value = 0xFF
               then (index, 0x01, dest_value_ptr,
                     dst(encoded_value_ptr := encoded_value), max wr (Suc encoded_value_ptr))
               else
                 let data_value = src (unat index) in
                 if data_value \<noteq> 0x00
                 then (index + 1, encoded_value + 1, encoded_value_ptr,
                       dst(dest_value_ptr := data_value), max wr (Suc dest_value_ptr))
                 else (index + 1, 0x01, dest_value_ptr,
                       dst(encoded_value_ptr := encoded_value), max wr (Suc encoded_value_ptr)));
            dest_value_ptr = dest_value_ptr + 1;
            stuffed_length = stuffed_length + 1
        in if index = src_length
           then (index, encoded_value, encoded_value_ptr, dest_value_ptr + 1, stuffed_length + 1,
                 dst(encoded_value_ptr := encoded_value, dest_value_ptr := 0x00),
                 max wr (Suc dest_value_ptr))
           else (index, encoded_value, encoded_value_ptr, dest_value_ptr, stuffed_length, dst, wr))"

function fh_cobs_stuff_loop :: "mem \<Rightarrow> uint32 \<Rightarrow> uint32 \<Rightarrow> stuff_vars \<Rightarrow> cobs_result" where
  "fh_cobs_stuff_loop src src_length dst_length
       (index, encoded_value, encoded_value_ptr, dest_value_ptr, stuffed_length, dst, wr) =
     (if index < src_length
      then
        (case fh_cobs_stuff_body src src_length
                (index, encoded_value, encoded_value_ptr, dest_value_ptr, stuffed_length, dst, wr) of
           (index', encoded_value', encoded_value_ptr', dest_value_ptr', stuffed_length', dst', wr') \<Rightarrow>
             if stuffed_length' \<ge> dst_length \<and> index' < src_length
             then cobs_fail COBS_ERROR_DST_BUFFER_OVERFLOW (Some dst') wr' (unat index')
             else fh_cobs_stuff_loop src src_length dst_length
                    (index', encoded_value', encoded_value_ptr', dest_value_ptr', stuffed_length',
                     dst', wr'))
      else \<lparr>cobs_return = stuffed_length, cobs_error = COBS_SUCCESS, cobs_dst = Some dst,
             cobs_written = wr, cobs_read = unat index\<rparr>)"
  by pat_completeness auto
termination
proof (relation "measure (\<lambda>(src, src_length, dst_length, index, encoded_value, rest).
          2 * (unat src_length - unat index) + (if encoded_value = 0xFF then 1 else 0))")
  show "wf (measure (\<lambda>(src, src_length, dst_length, index, encoded_value, rest).
          2 * (unat src_length - unat index) + (if encoded_value = 0xFF then 1 else 0)))"
    by simp
next
  fix src :: mem and src_length dst_length index :: uint32 and encoded_value :: byte
    and encoded_value_ptr dest_value_ptr :: nat and stuffed_length :: uint32 and dst :: mem
    and wr :: nat and x2 index' y encoded_value' ya encoded_value_ptr' yb dest_value_ptr' yc
    stuffed_length' yd dst' wr'
  assume lt: "index < src_length"
    and body: "(index', y) = fh_cobs_stuff_body src src_length
        (index, encoded_value, encoded_value_ptr, dest_value_ptr, stuffed_length, dst, wr)"
    and y: "(encoded_value', ya) = y"
  have u: "unat (index + 1) = Suc (unat index)"
    using lt by (rule unat_less_Suc)
  have l: "unat index < unat src_length"
    using lt by (simp add: word_less_nat_alt)
  show "((src, src_length, dst_length, index', encoded_value', encoded_value_ptr', dest_value_ptr',
          stuffed_length', dst', wr'),
         (src, src_length, dst_length, index, encoded_value, encoded_value_ptr, dest_value_ptr,
          stuffed_length, dst, wr))
        \<in> measure (\<lambda>(src, src_length, dst_length, index, encoded_value, rest).
          2 * (unat src_length - unat index) + (if encoded_value = 0xFF then 1 else 0))"
    using body y u l
    by (auto simp: fh_cobs_stuff_body_def Let_def split: if_splits)
qed

declare fh_cobs_stuff_loop.simps [simp del]

definition fh_cobs_stuff_bytes :: "mem option \<Rightarrow> uint32 \<Rightarrow> mem option \<Rightarrow> uint32 \<Rightarrow> cobs_result" where
  "fh_cobs_stuff_bytes src src_length dst dst_length =
     (case src of
        None \<Rightarrow> cobs_fail COBS_ERROR_NULL_SRC_BUFFER dst 0 0
      | Some s \<Rightarrow>
          (case dst of
             None \<Rightarrow> cobs_fail COBS_ERROR_NULL_DST_BUFFER dst 0 0
           | Some d \<Rightarrow>
               if src_length = 0 then cobs_fail COBS_ERROR_INVALID_LENGTH dst 0 0
               else if dst_length = 0 then cobs_fail COBS_ERROR_INVALID_LENGTH dst 0 0
               else fh_cobs_stuff_loop s src_length dst_length
                      (0, 0x01, 0, 1, 1, memset d 0 0x0 (unat dst_length), unat dst_length)))"


subsection \<open>fh\_cobs\_unstuff\_bytes\<close>

text \<open>
  The loop of \<open>fh_cobs_unstuff_bytes\<close>.  Its variables are the source pointer \<open>src\<close>
  (here the offset \<open>p\<close> into the source buffer, since the loop advances it), the
  one-byte \<open>index\<close>, \<open>encoded_value\<close>, \<open>unstuffed_length\<close>, and the destination with its
  moving pointer \<open>dp\<close>; \<open>rd\<close> is the read high-water mark.  The declared \<open>src_length\<close> is
  not a parameter: the C loop never looks at it.
\<close>

function fh_cobs_unstuff_loop ::
  "mem \<Rightarrow> uint32 \<Rightarrow> nat \<Rightarrow> byte \<Rightarrow> byte \<Rightarrow> uint32 \<Rightarrow> mem \<Rightarrow> nat \<Rightarrow> nat \<Rightarrow> cobs_result" where
  "fh_cobs_unstuff_loop src dst_length p index encoded_value unstuffed_length dst dp rd =
     (if unstuffed_length \<ge> dst_length \<and> encoded_value \<noteq> 0x00
      then cobs_fail COBS_ERROR_DST_BUFFER_OVERFLOW (Some dst) dp rd
      else if index \<noteq> encoded_value
      then
        (let data_value = src (p + unat index);
             rd = max rd (Suc (p + unat index));
             dst = dst(dp := data_value);
             unstuffed_length = unstuffed_length + 1;
             dp = dp + 1;
             index = index + 1
         in if index = 0
            then cobs_fail COBS_ERROR_INVALID_STUFFING (Some dst) dp rd
            else fh_cobs_unstuff_loop src dst_length p index encoded_value unstuffed_length dst dp rd)
      else
        (let encoded_value = src (p + unat index);
             rd = max rd (Suc (p + unat index))
         in if encoded_value = 0x00
            then \<lparr>cobs_return = unstuffed_length, cobs_error = COBS_SUCCESS, cobs_dst = Some dst,
                   cobs_written = dp, cobs_read = rd\<rparr>
            else if index \<noteq> 0xFF
            then fh_cobs_unstuff_loop src dst_length (p + unat index) 1 encoded_value
                   (unstuffed_length + 1) (dst(dp := 0x00)) (dp + 1) rd
            else fh_cobs_unstuff_loop src dst_length (p + unat index) 1 encoded_value
                   unstuffed_length dst dp rd))"
  by pat_completeness auto
termination
proof (relation "measures
    [\<lambda>(src, dst_length, p, index, encoded_value, unstuffed_length, rest).
        if encoded_value = 0 then 1 else 0,
     \<lambda>(src, dst_length, p, index, encoded_value, unstuffed_length, rest).
        if encoded_value = 0 then 256 - unat index
        else 2 * (unat dst_length - unat unstuffed_length) + (if index = 0xFF then 1 else 0)]",
    goal_cases)
  case 1
  show ?case by simp
next
  case (2 src dst_length p index encoded_value unstuffed_length dst dp rd)
  show ?case
  proof (cases "encoded_value = 0")
    case True
    with 2 show ?thesis
      using unat_byte_less [of "index + 1"] by (simp add: unat_inc_nz)
  next
    case False
    with 2 have "unstuffed_length < dst_length" by simp
    then have "unat (unstuffed_length + 1) = Suc (unat unstuffed_length)"
      and "unat unstuffed_length < unat dst_length"
      by (simp_all add: unat_less_Suc word_less_nat_alt)
    with False 2 show ?thesis by auto
  qed
next
  case (3 src dst_length p index encoded_value unstuffed_length dst dp rd x xa)
  show ?case
  proof (cases "encoded_value = 0")
    case True
    with 3 show ?thesis by simp
  next
    case False
    with 3 have "unstuffed_length < dst_length" by simp
    then have "unat (unstuffed_length + 1) = Suc (unat unstuffed_length)"
      and "unat unstuffed_length < unat dst_length"
      by (simp_all add: unat_less_Suc word_less_nat_alt)
    with False 3 show ?thesis by simp
  qed
next
  case (4 src dst_length p index encoded_value unstuffed_length dst dp rd x xa)
  then show ?case by auto
qed

declare fh_cobs_unstuff_loop.simps [simp del]

text \<open>
  \<open>encoded_value\<close> is initialised from \<open>*src\<close> before the \<open>NULL\<close> test; with a \<open>NULL\<close>
  source the model reports the error the test would.
\<close>

definition fh_cobs_unstuff_bytes ::
  "mem option \<Rightarrow> uint32 \<Rightarrow> mem option \<Rightarrow> uint32 \<Rightarrow> cobs_result" where
  "fh_cobs_unstuff_bytes src src_length dst dst_length =
     (case src of
        None \<Rightarrow> cobs_fail COBS_ERROR_NULL_SRC_BUFFER dst 0 0
      | Some s \<Rightarrow>
          (case dst of
             None \<Rightarrow> cobs_fail COBS_ERROR_NULL_DST_BUFFER dst 0 1
           | Some d \<Rightarrow>
               if src_length = 0 then cobs_fail COBS_ERROR_INVALID_LENGTH dst 0 1
               else if dst_length = 0 then cobs_fail COBS_ERROR_INVALID_LENGTH dst 0 1
               else fh_cobs_unstuff_loop s dst_length 0 1 (s 0) 0 d 0 1))"

subsection \<open>The encoding, block by block\<close>

text \<open>
  What the stuffing loop is meant to compute, as functions on lists.  The input is cut
  into blocks: a block ends at a zero byte of the input (which is dropped), at the end of
  the input, or, while input remains, when it holds 254 bytes.  \<open>cobs_blocks blk s\<close> are
  the blocks of \<open>s\<close> when \<open>blk\<close> is the part of the current block already seen.  On the
  wire a block is its length plus one followed by its bytes, and a zero ends the frame.
  \<open>cobs_unblocks\<close> puts the input together again: a zero goes back in after every block
  but the last, except after a block of 254 bytes.
\<close>

fun cobs_blocks :: "byte list \<Rightarrow> byte list \<Rightarrow> byte list list" where
  "cobs_blocks blk [] = [blk]"
| "cobs_blocks blk (d # ds) =
     (if length blk = 254
      then blk # (if d \<noteq> 0 then cobs_blocks [d] ds else [] # cobs_blocks [] ds)
      else if d \<noteq> 0 then cobs_blocks (blk @ [d]) ds
      else blk # cobs_blocks [] ds)"

fun cobs_wire :: "byte list list \<Rightarrow> byte list" where
  "cobs_wire [] = [0]"
| "cobs_wire (b # bs) = of_nat (Suc (length b)) # b @ cobs_wire bs"

fun cobs_unblocks :: "byte list list \<Rightarrow> byte list" where
  "cobs_unblocks [] = []"
| "cobs_unblocks [b] = b"
| "cobs_unblocks (b # b' # bs) =
     b @ (if length b = 254 then [] else [0]) @ cobs_unblocks (b' # bs)"

definition cobs_stuffed :: "byte list \<Rightarrow> byte list" where
  "cobs_stuffed s = cobs_wire (cobs_blocks [] s)"

section \<open>Typed packets (fh\_packet\_id.h, fh\_hsuart\_packet.c)\<close>

datatype fh_packet_id_t =
    PROTOCOL_PACKET
  | END_OF_TRANSFER_PACKET
  | ACK_PACKET
  | NAK_PACKET
  | VERSION_PACKET
  | READY_TO_READ_PACKET

text \<open>The enumerators' values, which are the identifier bytes on the wire.\<close>

fun packet_id_byte :: "fh_packet_id_t \<Rightarrow> byte" where
  "packet_id_byte PROTOCOL_PACKET = 0xF0"
| "packet_id_byte END_OF_TRANSFER_PACKET = 0x55"
| "packet_id_byte ACK_PACKET = 0x06"
| "packet_id_byte NAK_PACKET = 0x09"
| "packet_id_byte VERSION_PACKET = 0xAA"
| "packet_id_byte READY_TO_READ_PACKET = 0x0F"

datatype fh_packet_error_t =
    PACKET_SUCCESS
  | PACKET_ERROR_NULL_SRC_BUFFER
  | PACKET_ERROR_NULL_DST_BUFFER
  | PACKET_ERROR_INVALID_LENGTH
  | PACKET_ERROR_INVALID_PACKET_ID
  | PACKET_ERROR_CRC
  | PACKET_ERROR_VERSION_MISMATCH
  | PACKET_ERROR_DST_BUFFER_OVERFLOW

datatype fh_hsuart_packet_error_t =
    HSUART_PACKET_SUCCESS
  | HSUART_INVALID_PARAM_ERROR
  | HSUART_PACKET_CORRUPTION_ERROR
  | HSUART_COBS_ERROR

definition MAX_HSUART_PACKET_SIZE :: uint32 where
  "MAX_HSUART_PACKET_SIZE = 4 * 1024"

definition packet_id_size :: uint32 where
  "packet_id_size = 1"

definition version_packet_size :: uint32 where
  "version_packet_size = 2"

definition PACKET_LAYER_MINOR_ID :: byte where
  "PACKET_LAYER_MINOR_ID = 0"

definition PACKET_LAYER_MAJOR_ID :: byte where
  "PACKET_LAYER_MAJOR_ID = 1"

text \<open>The macro \<open>LITTLE_TO_BIG_SHORT\<close>, its result stored in a \<open>uint16\<close>.\<close>

definition LITTLE_TO_BIG_SHORT :: "uint16 \<Rightarrow> uint16" where
  "LITTLE_TO_BIG_SHORT x = push_bit 8 (x AND 0xff) OR (drop_bit 8 x AND 0xff)"

text \<open>
  The code copies a \<open>uint16\<close> object to and from the packet with \<open>memscpy\<close>, so the bytes
  depend on the host's byte order.  \<open>IS_BIG_ENDIAN()\<close> is the parameter \<open>be\<close> of the
  functions below; \<open>uint16_bytes be x\<close> is the object representation of \<open>x\<close> on that
  host and \<open>uint16_of_bytes\<close> reads it back.
\<close>

definition uint16_bytes :: "bool \<Rightarrow> uint16 \<Rightarrow> byte list" where
  "uint16_bytes be x =
     (if be then [ucast (drop_bit 8 x), ucast x] else [ucast x, ucast (drop_bit 8 x)])"

definition uint16_of_bytes :: "bool \<Rightarrow> byte list \<Rightarrow> uint16" where
  "uint16_of_bytes be bs =
     (if be then push_bit 8 (ucast (bs ! 0)) OR ucast (bs ! 1)
      else push_bit 8 (ucast (bs ! 1)) OR ucast (bs ! 0))"

text \<open>
  \<open>fh_crc_calculate_crc16\<close> is declared in fh\_crc.h and defined outside these sources:
  it is the parameter \<open>crc\<close>, a function of the bytes it is given.
\<close>

text \<open>The shared case \<open>PROTOCOL_PACKET\<close> / \<open>END_OF_TRANSFER_PACKET\<close> of \<open>fh_packet_encode\<close>.\<close>

definition fh_packet_encode_payload ::
  "(byte list \<Rightarrow> uint16) \<Rightarrow> bool \<Rightarrow> fh_packet_id_t \<Rightarrow> mem option \<Rightarrow> uint32 \<Rightarrow> mem \<Rightarrow> uint32 \<Rightarrow>
   uint32 \<times> fh_packet_error_t \<times> mem option" where
  "fh_packet_encode_payload crc be packet_id src src_length dst dst_length =
     (case src of
        None \<Rightarrow> (0, PACKET_ERROR_NULL_SRC_BUFFER, Some dst)
      | Some s \<Rightarrow>
          if src_length = 0 then (0, PACKET_ERROR_INVALID_LENGTH, Some dst)
          else
            let dst = dst(0 := packet_id_byte packet_id);
                (_, dst) = memscpy dst (unat packet_id_size) (unat (dst_length - packet_id_size))
                             s 0 (unat src_length);
                crc_data = crc (load dst 0 (unat (packet_id_size + src_length)));
                crc_data = (if \<not> be then LITTLE_TO_BIG_SHORT crc_data else crc_data);
                (_, dst) = memscpy dst (unat packet_id_size + unat src_length)
                             (unat (dst_length - packet_id_size))
                             (mem_of (uint16_bytes be crc_data)) 0 2
            in (packet_id_size + src_length + 2, PACKET_SUCCESS, Some dst))"

definition fh_packet_encode ::
  "(byte list \<Rightarrow> uint16) \<Rightarrow> bool \<Rightarrow> fh_packet_id_t \<Rightarrow> mem option \<Rightarrow> uint32 \<Rightarrow> mem option \<Rightarrow> uint32 \<Rightarrow>
   uint32 \<times> fh_packet_error_t \<times> mem option" where
  "fh_packet_encode crc be packet_id src src_length dst dst_length =
     (case dst of
        None \<Rightarrow> (0, PACKET_ERROR_NULL_DST_BUFFER, None)
      | Some d \<Rightarrow>
          (case packet_id of
             ACK_PACKET \<Rightarrow>
               (packet_id_size, PACKET_SUCCESS, Some (d(0 := packet_id_byte ACK_PACKET)))
           | NAK_PACKET \<Rightarrow>
               (packet_id_size, PACKET_SUCCESS, Some (d(0 := packet_id_byte NAK_PACKET)))
           | VERSION_PACKET \<Rightarrow>
               (let d = d(0 := packet_id_byte VERSION_PACKET, 1 := PACKET_LAYER_MAJOR_ID,
                          2 := PACKET_LAYER_MINOR_ID);
                    crc_data = crc (load d 0 (unat (packet_id_size + version_packet_size)));
                    crc_data = (if \<not> be then LITTLE_TO_BIG_SHORT crc_data else crc_data);
                    (_, d) = memscpy d (unat packet_id_size + unat version_packet_size)
                               (unat (dst_length - (packet_id_size + version_packet_size)))
                               (mem_of (uint16_bytes be crc_data)) 0 2
                in (packet_id_size + version_packet_size + 2, PACKET_SUCCESS, Some d))
           | READY_TO_READ_PACKET \<Rightarrow>
               (let d = d(0 := packet_id_byte READY_TO_READ_PACKET);
                    crc_data = crc (load d 0 (unat packet_id_size));
                    crc_data = (if \<not> be then LITTLE_TO_BIG_SHORT crc_data else crc_data);
                    (_, d) = memscpy d (unat packet_id_size) (unat (dst_length - packet_id_size))
                               (mem_of (uint16_bytes be crc_data)) 0 2
                in (packet_id_size + 2, PACKET_SUCCESS, Some d))
           | PROTOCOL_PACKET \<Rightarrow>
               fh_packet_encode_payload crc be packet_id src src_length d dst_length
           | END_OF_TRANSFER_PACKET \<Rightarrow>
               fh_packet_encode_payload crc be packet_id src src_length d dst_length))"

text \<open>
  What \<open>fh_packet_decode\<close> leaves behind: the returned length, \<open>*error\<close>, \<open>*packet_id\<close>
  (\<open>None\<close> when the call did not assign it) and the destination buffer.
\<close>

record packet_decoded =
  pkt_return :: uint32
  pkt_error :: fh_packet_error_t
  pkt_id :: "fh_packet_id_t option"
  pkt_dst :: "mem option"

definition packet_decoded :: "uint32 \<Rightarrow> fh_packet_error_t \<Rightarrow> fh_packet_id_t option \<Rightarrow> mem option \<Rightarrow> packet_decoded" where
  "packet_decoded r e i d = \<lparr>pkt_return = r, pkt_error = e, pkt_id = i, pkt_dst = d\<rparr>"

text \<open>The received CRC, read from the packet at \<open>off\<close> and turned to host order.\<close>

definition rx_crc :: "bool \<Rightarrow> mem \<Rightarrow> nat \<Rightarrow> uint16" where
  "rx_crc be src off =
     (let rx_crc_data = uint16_of_bytes be (load src off 2)
      in if \<not> be then LITTLE_TO_BIG_SHORT rx_crc_data else rx_crc_data)"

definition fh_packet_decode ::
  "(byte list \<Rightarrow> uint16) \<Rightarrow> bool \<Rightarrow> mem option \<Rightarrow> uint32 \<Rightarrow> mem option \<Rightarrow> uint32 \<Rightarrow> packet_decoded" where
  "fh_packet_decode crc be src src_length dst dst_length =
     (case src of
        None \<Rightarrow> packet_decoded 0 PACKET_ERROR_NULL_SRC_BUFFER None dst
      | Some s \<Rightarrow>
          (case dst of
             None \<Rightarrow> packet_decoded 0 PACKET_ERROR_NULL_DST_BUFFER None dst
           | Some d \<Rightarrow>
               if src_length = 0 then packet_decoded 0 PACKET_ERROR_INVALID_LENGTH None dst
               else if s 0 = packet_id_byte ACK_PACKET then
                 (if src_length \<noteq> 1 then packet_decoded 0 PACKET_ERROR_INVALID_LENGTH None dst
                  else packet_decoded 0 PACKET_SUCCESS (Some ACK_PACKET) dst)
               else if s 0 = packet_id_byte NAK_PACKET then
                 (if src_length \<noteq> 1 then packet_decoded 0 PACKET_ERROR_INVALID_LENGTH None dst
                  else packet_decoded 0 PACKET_SUCCESS (Some NAK_PACKET) dst)
               else if s 0 = packet_id_byte VERSION_PACKET then
                 (if unat src_length \<noteq> unat packet_id_size + unat version_packet_size + 2
                  then packet_decoded 0 PACKET_ERROR_INVALID_LENGTH None dst
                  else
                    let crc_data = crc (load s 0 (unat (packet_id_size + version_packet_size)));
                        rx_crc_data = rx_crc be s (unat packet_id_size + unat version_packet_size)
                    in if rx_crc_data \<noteq> crc_data
                       then packet_decoded 0 PACKET_ERROR_CRC (Some VERSION_PACKET) dst
                       else if PACKET_LAYER_MAJOR_ID = s 1 \<and> PACKET_LAYER_MINOR_ID = s 2
                       then packet_decoded 0 PACKET_SUCCESS (Some VERSION_PACKET) dst
                       else packet_decoded 0 PACKET_ERROR_VERSION_MISMATCH (Some VERSION_PACKET) dst)
               else if s 0 = packet_id_byte PROTOCOL_PACKET
                       \<or> s 0 = packet_id_byte END_OF_TRANSFER_PACKET then
                 (let packet_id = (if s 0 = packet_id_byte PROTOCOL_PACKET then PROTOCOL_PACKET
                                   else END_OF_TRANSFER_PACKET)
                  in if unat src_length < unat packet_id_size + 2
                     then packet_decoded 0 PACKET_ERROR_INVALID_LENGTH (Some packet_id) dst
                     else if dst_length < src_length - packet_id_size - 2
                     then packet_decoded 0 PACKET_ERROR_DST_BUFFER_OVERFLOW (Some packet_id) dst
                     else
                       let crc_data = crc (load s 0 (unat (src_length - 2)));
                           rx_crc_data = rx_crc be s (unat src_length - 2)
                       in if rx_crc_data \<noteq> crc_data
                          then packet_decoded 0 PACKET_ERROR_CRC (Some packet_id) dst
                          else
                            let (_, d) = memscpy d 0 (unat dst_length) s (unat packet_id_size)
                                           (unat (src_length - packet_id_size) - 2)
                            in packet_decoded (src_length - packet_id_size - 2) PACKET_SUCCESS
                                 (Some packet_id) (Some d))
               else if s 0 = packet_id_byte READY_TO_READ_PACKET then
                 (if src_length \<noteq> packet_id_size + 2
                  then packet_decoded 0 PACKET_ERROR_INVALID_LENGTH (Some READY_TO_READ_PACKET) dst
                  else
                    let crc_data = crc (load s 0 (unat (src_length - 2)));
                        rx_crc_data = rx_crc be s (unat packet_id_size)
                    in if rx_crc_data \<noteq> crc_data
                       then packet_decoded 0 PACKET_ERROR_CRC (Some READY_TO_READ_PACKET) dst
                       else packet_decoded 0 PACKET_SUCCESS (Some READY_TO_READ_PACKET) dst)
               else packet_decoded 0 PACKET_ERROR_INVALID_PACKET_ID None dst))"

text \<open>
  \<open>fh_hsuart_packet_encode\<close>: the packet is built in a zeroed \<open>temp_buffer\<close> of
  \<open>MAX_HSUART_PACKET_SIZE\<close> bytes and, unless it is an ACK or a NAK, stuffed into \<open>dst\<close>.
\<close>

definition fh_hsuart_packet_encode ::
  "(byte list \<Rightarrow> uint16) \<Rightarrow> bool \<Rightarrow> fh_packet_id_t \<Rightarrow> mem option \<Rightarrow> uint32 \<Rightarrow> mem option \<Rightarrow> uint32 \<Rightarrow>
   uint32 \<times> fh_hsuart_packet_error_t \<times> mem option" where
  "fh_hsuart_packet_encode crc be packet_id src src_length dst dst_length =
     (let (result, packet_error, temp_buffer) =
            fh_packet_encode crc be packet_id src src_length (Some (\<lambda>_. 0)) MAX_HSUART_PACKET_SIZE
      in if packet_error \<noteq> PACKET_SUCCESS then (result, HSUART_INVALID_PARAM_ERROR, dst)
         else if packet_id \<noteq> ACK_PACKET \<and> packet_id \<noteq> NAK_PACKET then
           (let r = fh_cobs_stuff_bytes temp_buffer result dst dst_length
            in (cobs_return r,
                if cobs_error r \<noteq> COBS_SUCCESS then HSUART_INVALID_PARAM_ERROR
                else HSUART_PACKET_SUCCESS,
                cobs_dst r))
         else
           (case dst of
              None \<Rightarrow> (result, HSUART_PACKET_SUCCESS, dst)
            | Some d \<Rightarrow>
                (result, HSUART_PACKET_SUCCESS,
                 Some (snd (memscpy d 0 (unat result) (the temp_buffer) 0 (unat packet_id_size))))))"

text \<open>
  The payloads a caller can hand to the encoder for an identifier: data for PROTOCOL and
  END\_OF\_TRANSFER (the encoder rejects an empty one), none for the others, whose bytes
  after the identifier the codec supplies itself.
\<close>

definition valid_payload :: "fh_packet_id_t \<Rightarrow> byte list \<Rightarrow> bool" where
  "valid_payload packet_id p \<longleftrightarrow>
     (if packet_id = PROTOCOL_PACKET \<or> packet_id = END_OF_TRANSFER_PACKET then p \<noteq> []
      else p = [])"

text \<open>
  The CRC as the encoder stores it, and what the decoder reads back from these bytes.
\<close>

definition wire_crc :: "bool \<Rightarrow> uint16 \<Rightarrow> byte list" where
  "wire_crc be c = uint16_bytes be (if \<not> be then LITTLE_TO_BIG_SHORT c else c)"

section \<open>HSUART transport (fh\_transport\_hsuart.c)\<close>

definition MAX_HSUART_PACKET_DATA_SIZE :: uint32 where
  "MAX_HSUART_PACKET_DATA_SIZE = 4000"

definition ONE_MEGA_BYTE :: nat where
  "ONE_MEGA_BYTE = 1024 * 1024"

subsection \<open>The receive ring\<close>

text \<open>
  The file-level statics \<open>fh_transport_hsuart_buffered_length\<close>,
  \<open>fh_transport_hsuart_buffered_data\<close> and the two pointers into it.  The pointers are
  offsets from the base of the array; they only ever move up from the base or back to it.
\<close>

record hsuart_ring =
  buffered_length :: uint32
  buffered_data :: mem
  buffered_data_end_ptr :: nat
  buffered_data_start_ptr :: nat

definition hsuart_ring_init :: hsuart_ring where
  "hsuart_ring_init =
     \<lparr>buffered_length = 0, buffered_data = (\<lambda>_. 0), buffered_data_end_ptr = 0,
      buffered_data_start_ptr = 0\<rparr>"

text \<open>Returns the length fetched, the caller's buffer and the ring.\<close>

definition get_data_from_buffer :: "mem \<Rightarrow> uint32 \<Rightarrow> hsuart_ring \<Rightarrow> uint32 \<times> mem \<times> hsuart_ring" where
  "get_data_from_buffer buffer requested_length r =
     (if requested_length < buffered_length r
      then
        (requested_length,
         snd (memscpy buffer 0 (unat requested_length)
                (buffered_data r) (buffered_data_start_ptr r) (unat requested_length)),
         r\<lparr>buffered_data_start_ptr := buffered_data_start_ptr r + unat requested_length,
           buffered_length := buffered_length r - requested_length\<rparr>)
      else
        (buffered_length r,
         snd (memscpy buffer 0 (unat (buffered_length r))
                (buffered_data r) (buffered_data_start_ptr r) (unat (buffered_length r))),
         r\<lparr>buffered_data_start_ptr := 0, buffered_data_end_ptr := 0, buffered_length := 0\<rparr>))"

text \<open>
  The test of \<open>add_data_to_buffer\<close> is
  \<open>length < (ONE_MEGA_BYTE - buffered_length - (end_ptr - buffered_data))\<close>
  (the parameter \<open>length\<close> is \<open>len\<close> here).
  \<open>ONE_MEGA_BYTE - buffered_length\<close> is computed in \<open>uint32\<close>; the pointer difference has
  type \<open>ptrdiff_t\<close>, and what the second subtraction and the comparison mean depends on its
  width.  Where \<open>ptrdiff_t\<close> has 64 bits (LP64, LLP64) the \<open>uint32\<close> operands are converted
  to it: the arithmetic is signed and does not wrap, and is written here over \<open>int\<close>.  Where
  \<open>ptrdiff_t\<close> has 32 bits (ILP32) the pointer difference is converted to \<open>uint32\<close>: the
  subtraction wraps modulo \<open>2^32\<close> and the comparison is unsigned.
\<close>

datatype ptrdiff_t_width = Ptrdiff_32 | Ptrdiff_64

definition add_data_to_buffer ::
  "ptrdiff_t_width \<Rightarrow> mem \<Rightarrow> uint32 \<Rightarrow> hsuart_ring \<Rightarrow> bool \<times> hsuart_ring" where
  "add_data_to_buffer w buffer len r =
     (if (case w of
            Ptrdiff_64 \<Rightarrow>
              int (unat len) <
                int (unat (of_nat ONE_MEGA_BYTE - buffered_length r)) - int (buffered_data_end_ptr r)
          | Ptrdiff_32 \<Rightarrow>
              len < of_nat ONE_MEGA_BYTE - buffered_length r - of_nat (buffered_data_end_ptr r))
      then
        (True,
         r\<lparr>buffered_data := snd (memscpy (buffered_data r) (buffered_data_end_ptr r) (unat len)
                                     buffer 0 (unat len)),
           buffered_data_end_ptr := buffered_data_end_ptr r + unat len,
           buffered_length := buffered_length r + len\<rparr>)
      else (False, r))"

text \<open>Any interleaving of the two operations, from the side of the ring.\<close>

datatype ring_op = Ring_add mem uint32 | Ring_get mem uint32

fun ring_step :: "ptrdiff_t_width \<Rightarrow> hsuart_ring \<Rightarrow> ring_op \<Rightarrow> hsuart_ring" where
  "ring_step w r (Ring_add buffer len) = snd (add_data_to_buffer w buffer len r)"
| "ring_step w r (Ring_get buffer requested_length) =
     snd (snd (get_data_from_buffer buffer requested_length r))"

definition ring_run :: "ptrdiff_t_width \<Rightarrow> ring_op list \<Rightarrow> hsuart_ring" where
  "ring_run w ops = foldl (ring_step w) hsuart_ring_init ops"

text \<open>The invariant of the ring.\<close>

definition ring_inv :: "hsuart_ring \<Rightarrow> bool" where
  "ring_inv r \<longleftrightarrow>
     unat (buffered_length r) + buffered_data_start_ptr r = buffered_data_end_ptr r \<and>
     buffered_data_start_ptr r \<le> buffered_data_end_ptr r \<and>
     buffered_data_end_ptr r \<le> ONE_MEGA_BYTE"

subsection \<open>Writing: fragments and the per-packet exchange\<close>

text \<open>
  The serial link is outside the code.  For one packet, \<open>write_hsuart_packet\<close> transmits
  the encoded frame and waits for the answer, again and again until the answer is an ACK;
  what the link does at each round is one \<open>link_event\<close>: the transmission fails
  (\<open>transmit_hsuart_packet\<close> returns \<open>FALSE\<close>), or the frame goes out and \<open>wait_for_ack\<close>
  returns \<open>FALSE\<close> or \<open>TRUE\<close>.  The link's behaviour is a list of events; the C loop has no
  bound, so when the list ends with the loop still waiting the call does not return
  (\<open>None\<close>).  The result is the C return value, the frames put on the wire and the rest of
  the link's events.
\<close>

datatype link_event = Link_tx_failed | Link_no_ack | Link_ack

fun write_hsuart_packet_rounds ::
  "byte list \<Rightarrow> link_event list \<Rightarrow> (bool \<times> byte list list \<times> link_event list) option" where
  "write_hsuart_packet_rounds frame [] = None"
| "write_hsuart_packet_rounds frame (Link_tx_failed # es) = Some (False, [], es)"
| "write_hsuart_packet_rounds frame (Link_ack # es) = Some (True, [frame], es)"
| "write_hsuart_packet_rounds frame (Link_no_ack # es) =
     (case write_hsuart_packet_rounds frame es of
        None \<Rightarrow> None
      | Some (ok, frames, es') \<Rightarrow> Some (ok, frame # frames, es'))"

definition write_hsuart_packet ::
  "(byte list \<Rightarrow> uint16) \<Rightarrow> bool \<Rightarrow> mem \<Rightarrow> nat \<Rightarrow> uint32 \<Rightarrow> fh_packet_id_t \<Rightarrow> link_event list \<Rightarrow>
   (bool \<times> byte list list \<times> link_event list) option" where
  "write_hsuart_packet crc be buf off len packet_id es =
     (let (encode_result, hsuart_packet_error, write_buffer) =
            fh_hsuart_packet_encode crc be packet_id (Some (\<lambda>i. buf (off + i))) len
              (Some (\<lambda>_. 0)) MAX_HSUART_PACKET_SIZE
      in if HSUART_PACKET_SUCCESS = hsuart_packet_error
         then write_hsuart_packet_rounds (load (the write_buffer) 0 (unat encode_result)) es
         else Some (False, [], es))"

text \<open>
  The \<open>for\<close> loop of \<open>fh_transport_hsuart_write\<close>.  Its variables: \<open>packet_index\<close>,
  \<open>transfer_size\<close>, \<open>packet_id\<close>, \<open>*bytes_written\<close>; the frames sent so far and the link's
  remaining events are threaded through.
\<close>

function fh_transport_hsuart_write_loop ::
  "(byte list \<Rightarrow> uint16) \<Rightarrow> bool \<Rightarrow> mem \<Rightarrow> uint32 \<Rightarrow> uint32 \<Rightarrow> uint32 \<Rightarrow> uint32 \<Rightarrow> fh_packet_id_t \<Rightarrow>
   uint32 \<Rightarrow> byte list list \<Rightarrow> link_event list \<Rightarrow> (uint32 \<times> byte list list \<times> link_event list) option" where
  "fh_transport_hsuart_write_loop crc be write_buffer write_len packet_count packet_index
       transfer_size packet_id bytes_written frames es =
     (if packet_index < packet_count
      then
        (let (transfer_size, packet_id) =
               (if packet_count - packet_index = 1
                then (write_len mod MAX_HSUART_PACKET_DATA_SIZE, END_OF_TRANSFER_PACKET)
                else (transfer_size, packet_id))
         in case write_hsuart_packet crc be write_buffer
                   (unat (packet_index * MAX_HSUART_PACKET_DATA_SIZE)) transfer_size packet_id es of
              None \<Rightarrow> None
            | Some (ok, sent, es') \<Rightarrow>
                fh_transport_hsuart_write_loop crc be write_buffer write_len packet_count
                  (packet_index + 1) transfer_size packet_id
                  (if \<not> ok then bytes_written else bytes_written + transfer_size)
                  (frames @ sent) es')
      else Some (bytes_written, frames, es))"
  by pat_completeness auto
termination
proof (relation "measure (\<lambda>(crc, be, write_buffer, write_len, packet_count, packet_index, rest).
          unat packet_count - unat packet_index)", goal_cases)
  case 1
  show ?case by simp
next
  case (2 crc be write_buffer write_len packet_count packet_index transfer_size packet_id
          bytes_written frames es)
  from 2(1) have "unat (packet_index + 1) = Suc (unat packet_index)"
    and "unat packet_index < unat packet_count"
    by (simp_all add: unat_less_Suc word_less_nat_alt)
  then show ?case by simp
qed

declare fh_transport_hsuart_write_loop.simps [simp del]

text \<open>
  \<open>fh_transport_hsuart_write\<close>.  \<open>rtr\<close> is what \<open>wait_for_ready_to_read_packet\<close> returned.
  The result is the C return value \<open>*bytes_written > 0\<close>, the new \<open>*bytes_written\<close>, the
  frames put on the wire and the link's remaining events.
\<close>

definition fh_transport_hsuart_write ::
  "(byte list \<Rightarrow> uint16) \<Rightarrow> bool \<Rightarrow> bool \<Rightarrow> mem \<Rightarrow> uint32 \<Rightarrow> uint32 \<Rightarrow> link_event list \<Rightarrow>
   (bool \<times> uint32 \<times> byte list list \<times> link_event list) option" where
  "fh_transport_hsuart_write crc be rtr write_buffer write_len bytes_written es =
     (if rtr
      then
        (let packet_count = write_len div MAX_HSUART_PACKET_DATA_SIZE;
             packet_count = (if write_len mod MAX_HSUART_PACKET_DATA_SIZE \<noteq> 0
                             then packet_count + 1 else packet_count)
         in case fh_transport_hsuart_write_loop crc be write_buffer write_len packet_count 0
                   MAX_HSUART_PACKET_DATA_SIZE PROTOCOL_PACKET bytes_written [] es of
              None \<Rightarrow> None
            | Some (bytes_written, frames, es') \<Rightarrow>
                Some (bytes_written > 0, bytes_written, frames, es'))
      else Some (bytes_written > 0, bytes_written, [], es))"

subsection \<open>The blocking read and write with their retry counters\<close>

text \<open>
  \<open>fh_transport_hsuart_rx_blocking\<close>.  The transport below it is outside the code: the
  \<open>k\<close>-th call of \<open>fh_transport_hsuart_read\<close> leaves \<open>reads k\<close> in \<open>*bytes_rx\<close> and returns
  \<open>*bytes_read > 0\<close>.  \<open>retry\<close> is a C \<open>int\<close>, here its 32-bit pattern.  The result is the
  returned code and the number of read attempts made.
\<close>

function fh_transport_hsuart_rx_blocking_loop ::
  "(nat \<Rightarrow> uint32) \<Rightarrow> uint32 \<Rightarrow> nat \<Rightarrow> fh_res_t \<times> nat" where
  "fh_transport_hsuart_rx_blocking_loop reads retry k =
     (let bytes_rx = reads k;
          read_ok = (bytes_rx > 0)
      in if \<not> read_ok then (READ_PORT_ERROR, k + 1)
         else
           let retry = retry - 1
           in if retry = 0 then (READ_PORT_ERROR, k + 1)
              else if bytes_rx = 0
              then fh_transport_hsuart_rx_blocking_loop reads retry (k + 1)
              else (SUCCESS, k + 1))"
  by pat_completeness auto
termination
  by (relation "measure (\<lambda>(reads, retry, k). unat (retry - 1))") (auto simp: unat_dec_less)

declare fh_transport_hsuart_rx_blocking_loop.simps [simp del]

definition fh_transport_hsuart_rx_blocking :: "(nat \<Rightarrow> uint32) \<Rightarrow> fh_res_t \<times> nat" where
  "fh_transport_hsuart_rx_blocking reads = fh_transport_hsuart_rx_blocking_loop reads 100 0"

text \<open>
  \<open>fh_transport_hsuart_tx_blocking\<close>.  The \<open>k\<close>-th call of \<open>fh_transport_hsuart_write\<close>
  adds \<open>writes k\<close> to \<open>bytes_written\<close>, which is never reset, and returns
  \<open>*bytes_written > 0\<close>.  The parameter \<open>size\<close>, a \<open>size_t\<close>, is \<open>sz\<close> here.
\<close>

function fh_transport_hsuart_tx_blocking_loop ::
  "(nat \<Rightarrow> uint32) \<Rightarrow> nat \<Rightarrow> uint32 \<Rightarrow> uint32 \<Rightarrow> nat \<Rightarrow> fh_res_t \<times> nat" where
  "fh_transport_hsuart_tx_blocking_loop writes sz bytes_written retry k =
     (let bytes_written = bytes_written + writes k;
          write_ok = (bytes_written > 0)
      in if \<not> write_ok then (READ_PORT_ERROR, k + 1)
         else
           let retry = retry - 1
           in if retry = 0 then (READ_PORT_ERROR, k + 1)
              else if unat bytes_written < sz
              then fh_transport_hsuart_tx_blocking_loop writes sz bytes_written retry (k + 1)
              else (SUCCESS, k + 1))"
  by pat_completeness auto
termination
  by (relation "measure (\<lambda>(writes, sz, bytes_written, retry, k). unat (retry - 1))")
     (auto simp: unat_dec2_less)

declare fh_transport_hsuart_tx_blocking_loop.simps [simp del]

definition fh_transport_hsuart_tx_blocking :: "(nat \<Rightarrow> uint32) \<Rightarrow> nat \<Rightarrow> fh_res_t \<times> nat" where
  "fh_transport_hsuart_tx_blocking writes sz =
     fh_transport_hsuart_tx_blocking_loop writes sz 0 100 0"

section \<open>Transport dispatch (fh\_transport.c)\<close>

datatype fh_transport_type =
    FH_TRANSPORT_NONE
  | FH_TRANSPORT_COM
  | FH_TRANSPORT_HSUART
  | FH_TRANSPORT_VIP
  | FH_TRANSPORT_LINUX_PIPE_TEST
  | FH_TRANSPORT_MAX

text \<open>
  The two file-level statics of fh\_transport.c.  The \<open>transport\<close> pointer is \<open>None\<close> while it
  is unset and otherwise names the transport whose \<open>init\<close> function returned it.  The
  model also counts how often the selected transport's \<open>close\<close> operation has been invoked,
  so that "close was not called" can be said.
\<close>

record transport_state =
  session_transport_type :: fh_transport_type
  transport :: "fh_transport_type option"
  close_calls :: nat

definition transport_state_init :: transport_state where
  "transport_state_init =
     \<lparr>session_transport_type = FH_TRANSPORT_NONE, transport = None, close_calls = 0\<rparr>"

fun fh_transport_init :: "fh_transport_type \<Rightarrow> transport_state \<Rightarrow> fh_res_t \<times> transport_state" where
  "fh_transport_init transport_type st =
     (if session_transport_type st \<noteq> FH_TRANSPORT_NONE then (INVALID_PARAMETER, st)
      else (case transport_type of
              FH_TRANSPORT_NONE \<Rightarrow> (INVALID_PARAMETER, st)
            | FH_TRANSPORT_COM \<Rightarrow>
                (SUCCESS, st\<lparr>transport := Some FH_TRANSPORT_COM,
                              session_transport_type := transport_type\<rparr>)
            | FH_TRANSPORT_HSUART \<Rightarrow>
                (SUCCESS, st\<lparr>transport := Some FH_TRANSPORT_HSUART,
                              session_transport_type := transport_type\<rparr>)
            | FH_TRANSPORT_VIP \<Rightarrow> (INVALID_PARAMETER, st)
            | FH_TRANSPORT_LINUX_PIPE_TEST \<Rightarrow>
                (SUCCESS, st\<lparr>transport := Some FH_TRANSPORT_LINUX_PIPE_TEST,
                              session_transport_type := transport_type\<rparr>)
            | FH_TRANSPORT_MAX \<Rightarrow> (INVALID_PARAMETER, st)))"

definition fh_transport_get_type :: "transport_state \<Rightarrow> fh_transport_type" where
  "fh_transport_get_type st = session_transport_type st"

definition fh_transport_deinit :: "transport_state \<Rightarrow> fh_res_t \<times> transport_state" where
  "fh_transport_deinit st =
     (if session_transport_type st = FH_TRANSPORT_NONE then (NOT_INITALIZED, st)
      else (SUCCESS, st))"

text \<open>
  \<open>fh_transport_close\<close> is the one function that reaches \<open>transport->ops->close\<close>; the
  result of that driver call is the parameter \<open>r\<close>.
\<close>

definition fh_transport_close :: "fh_res_t \<Rightarrow> transport_state \<Rightarrow> fh_res_t \<times> transport_state" where
  "fh_transport_close r st =
     (if session_transport_type st = FH_TRANSPORT_NONE then (NOT_INITALIZED, st)
      else (r, st\<lparr>close_calls := close_calls st + 1\<rparr>))"

text \<open>A caller's later use of the dispatch layer: any sequence of init and deinit calls.\<close>

datatype transport_call = Call_init fh_transport_type | Call_deinit

fun do_transport_call :: "transport_call \<Rightarrow> transport_state \<Rightarrow> fh_res_t \<times> transport_state" where
  "do_transport_call (Call_init t) st = fh_transport_init t st"
| "do_transport_call Call_deinit st = fh_transport_deinit st"

fun transport_calls :: "transport_call list \<Rightarrow> transport_state \<Rightarrow> fh_res_t list \<times> transport_state" where
  "transport_calls [] st = ([], st)"
| "transport_calls (c # cs) st =
     (let (r, st1) = do_transport_call c st; (rs, st2) = transport_calls cs st1
      in (r # rs, st2))"

section \<open>Transfer layer (fh\_transfer.c)\<close>

subsection \<open>The XML scanner\<close>

text \<open>
  The scratch buffer \<open>fh_rx_buffer\<close> holds \<open>char\<close>s.  A conjunction such as
  \<open>xml[offset++] == '<' && xml[offset++] == 'd' && ...\<close> stops at the first character that
  differs, having advanced \<open>offset\<close> past it: \<open>match_chars\<close> returns whether all
  characters matched and the new \<open>offset\<close>.
\<close>

type_synonym cmem = "nat \<Rightarrow> char"

fun match_chars :: "cmem \<Rightarrow> nat \<Rightarrow> string \<Rightarrow> bool \<times> nat" where
  "match_chars xml offset [] = (True, offset)"
| "match_chars xml offset (c # cs) =
     (if xml offset = c then match_chars xml (offset + 1) cs else (False, offset + 1))"

lemma match_chars_advances: "cs \<noteq> [] \<Longrightarrow> offset < snd (match_chars xml offset cs)"
proof (induction cs arbitrary: offset)
  case Nil
  then show ?case by simp
next
  case (Cons c cs)
  show ?case
  proof (cases cs)
    case Nil
    then show ?thesis by simp
  next
    case (Cons d ds)
    with Cons.IH [of "offset + 1"] show ?thesis by (simp add: less_trans [OF lessI])
  qed
qed

text \<open>The first loop of \<open>response_xml_parse\<close>: search for \<open><data>\<close> below \<open>last_offset\<close>.\<close>

function find_data_open :: "cmem \<Rightarrow> nat \<Rightarrow> nat \<Rightarrow> nat" where
  "find_data_open xml last_offset offset =
     (if offset < last_offset
      then (let r = match_chars xml offset ''<data>''
            in if fst r then snd r else find_data_open xml last_offset (snd r))
      else offset)"
  by pat_completeness auto
termination
  by (relation "measure (\<lambda>(xml, last_offset, offset). last_offset - offset)")
     (use match_chars_advances in \<open>auto intro!: diff_less_mono2\<close>)

declare find_data_open.simps [simp del]

text \<open>
  The loops \<open>while (xml[offset] != c) { offset++; if (offset > last_offset) return 0; }\<close>:
  \<open>None\<close> is the \<open>return 0\<close>.
\<close>

function skip_to :: "cmem \<Rightarrow> nat \<Rightarrow> char \<Rightarrow> nat \<Rightarrow> nat option" where
  "skip_to xml last_offset c offset =
     (if xml offset \<noteq> c
      then (if offset + 1 > last_offset then None else skip_to xml last_offset c (offset + 1))
      else Some offset)"
  by pat_completeness auto
termination
  by (relation "measure (\<lambda>(xml, last_offset, c, offset). Suc last_offset - offset)") auto

declare skip_to.simps [simp del]

text \<open>The loop that records \<open>value="\<close> and stops after \<open>/>\<close>; it returns \<open>offset\<close> and \<open>*value\<close>.\<close>

function find_tag_close :: "cmem \<Rightarrow> nat \<Rightarrow> nat \<Rightarrow> nat option \<Rightarrow> nat \<times> nat option" where
  "find_tag_close xml last_offset offset val =
     (if offset < last_offset
      then
        (if load xml offset 7 = ''value='' @ [CHR 0x22]
         then find_tag_close xml last_offset (offset + 7) (Some (offset + 7))
         else (let r = match_chars xml offset ''/>''
               in if fst r then (snd r, val) else find_tag_close xml last_offset (snd r) val))
      else (offset, val))"
  by pat_completeness auto
termination
  by (relation "measure (\<lambda>(xml, last_offset, offset, val). last_offset - offset)")
     (use match_chars_advances in \<open>auto intro!: diff_less_mono2\<close>)

declare find_tag_close.simps [simp del]

text \<open>The last loop: search for \<open></data>\<close> and return the offset behind it, or 0.\<close>

function find_data_close :: "cmem \<Rightarrow> nat \<Rightarrow> nat \<Rightarrow> nat" where
  "find_data_close xml last_offset offset =
     (if offset \<le> last_offset
      then (let r = match_chars xml offset ''</data>''
            in if fst r then snd r else find_data_close xml last_offset (snd r))
      else 0)"
  by pat_completeness auto
termination
  by (relation "measure (\<lambda>(xml, last_offset, offset). Suc last_offset - offset)")
     (use match_chars_advances in \<open>auto intro!: diff_less_mono2\<close>)

declare find_data_close.simps [simp del]

text \<open>
  \<open>response_xml_parse\<close> returns the size of the envelope (0 if there is none yet) and
  sets \<open>*tag\<close> and \<open>*value\<close>, pointers into \<open>xml\<close>, here offsets; \<open>None\<close> is \<open>NULL\<close> or a
  pointer the call did not assign.
\<close>

record xml_parsed =
  xml_ret :: nat
  xml_tag :: "nat option"
  xml_value :: "nat option"

definition response_xml_parse :: "cmem \<Rightarrow> nat \<Rightarrow> xml_parsed" where
  "response_xml_parse xml xml_size =
     (if xml_size < 12 then \<lparr>xml_ret = 0, xml_tag = None, xml_value = None\<rparr>
      else
        let last_offset = xml_size - 7;
            offset = find_data_open xml last_offset 6
        in case skip_to xml last_offset (CHR ''<'') offset of
             None \<Rightarrow> \<lparr>xml_ret = 0, xml_tag = None, xml_value = None\<rparr>
           | Some offset \<Rightarrow>
               let offset = offset + 1;
                   tag = offset
               in case skip_to xml last_offset (CHR '' '') offset of
                    None \<Rightarrow> \<lparr>xml_ret = 0, xml_tag = Some tag, xml_value = None\<rparr>
                  | Some offset \<Rightarrow>
                      let r = find_tag_close xml last_offset (offset + 1) None
                      in \<lparr>xml_ret = find_data_close xml last_offset (fst r),
                          xml_tag = Some tag, xml_value = snd r\<rparr>)"

subsection \<open>The scratch buffer and the handling of a recognised envelope\<close>

record rx_scratch =
  fh_rx_buffer :: cmem
  fh_rx_buffer_bytes :: nat

definition fh_rx_buffer_size :: nat where
  "fh_rx_buffer_size = 4 * 1024"

text \<open>\<open>buf_remain\<close> is a \<open>size_t\<close> difference; the wrap-around (64 bits) is written out.\<close>

definition shift_fh_rx_buffer_left :: "nat \<Rightarrow> rx_scratch \<Rightarrow> rx_scratch" where
  "shift_fh_rx_buffer_left bytes st =
     (let buf_remain = (fh_rx_buffer_bytes st + 2 ^ 64 - bytes) mod 2 ^ 64;
          buf = snd (memsmove (fh_rx_buffer st) 0 fh_rx_buffer_size
                       (fh_rx_buffer st) bytes buf_remain);
          buf = memset buf buf_remain (CHR 0x00) bytes
      in \<lparr>fh_rx_buffer = buf, fh_rx_buffer_bytes = buf_remain\<rparr>)"

text \<open>
  The search for the closing quote of a log value: from \<open>end\<close> up to \<open>limit\<close>; returns
  where it stopped.
\<close>

function find_closing_quote :: "cmem \<Rightarrow> nat \<Rightarrow> nat \<Rightarrow> nat" where
  "find_closing_quote buf limit e =
     (if e < limit
      then (if buf e = CHR 0x22 then e else find_closing_quote buf limit (e + 1))
      else e)"
  by pat_completeness auto
termination
  by (relation "measure (\<lambda>(buf, limit, e). limit - e)") auto

declare find_closing_quote.simps [simp del]

text \<open>
  One pass of the \<open>do\<close> loop of \<open>fh_rx_blocking_response_xml\<close> from the point where
  \<open>response_xml_parse\<close> has returned a non-zero \<open>xml_size\<close> with \<open>command\<close> and \<open>value\<close>:
  the \<open>if (memcmp (command, "log", 3) == 0) ... else if (memcmp (command, "response", 8)
  == 0) ...\<close> statement.  The reads from the transport and the clock, which come before
  it, are outside the code.  The pass either returns from the function or goes round the
  loop again (\<open>Rx_continue\<close>, with whether the timeout clock was restarted).  The result
  also holds the caller's buffer \<open>data\<close>, \<open>*bytes_read\<close> (set to 0 on entry of the function)
  and the scratch buffer.
\<close>

datatype rx_outcome = Rx_return fh_res_t | Rx_continue bool

definition fh_rx_blocking_response_xml_envelope ::
  "cmem \<Rightarrow> nat \<Rightarrow> rx_scratch \<Rightarrow> nat \<Rightarrow> nat \<Rightarrow> nat option \<Rightarrow> rx_outcome \<times> cmem \<times> nat \<times> rx_scratch" where
  "fh_rx_blocking_response_xml_envelope data sz st xml_size command val =
     (if load (fh_rx_buffer st) command 3 = ''log''
      then
        (case val of
           None \<Rightarrow> (Rx_continue False, data, 0, shift_fh_rx_buffer_left xml_size st)
         | Some v \<Rightarrow>
             let e = find_closing_quote (fh_rx_buffer st) (xml_size - 7) v;
                 buf = (if e < xml_size - 7 then (fh_rx_buffer st)(e := CHR 0x00)
                        else fh_rx_buffer st)
             in (Rx_continue True, data, 0,
                 shift_fh_rx_buffer_left xml_size (st\<lparr>fh_rx_buffer := buf\<rparr>)))
      else if load (fh_rx_buffer st) command 8 = ''response''
      then
        (let (copied, data) = memscpy data 0 sz (fh_rx_buffer st) 0 xml_size
         in if copied < xml_size then (Rx_return INVALID_PARAMETER, data, 0, st)
            else (Rx_return SUCCESS, data, xml_size, shift_fh_rx_buffer_left xml_size st))
      else (Rx_continue False, data, 0, st))"

subsection \<open>Verified image programming: fh\_tx\_blocking\<close>

datatype vip_state =
    VIP_DISABLED
  | VIP_INIT
  | VIP_SEND_NEXT_TABLE
  | VIP_SEND_DATA
  | VIP_MAX

text \<open>
  \<open>struct fh_transfer_data\<close> without its two \<open>FILE *\<close> members, which only the table
  senders use.  \<open>size_t\<close> is 64 bits wide.
\<close>

type_synonym size_t = "64 word"

record fh_transfer_data =
  state :: vip_state
  digests_per_table :: size_t
  frame_sent :: size_t
  frames_to_next_table :: size_t
  chained_table_size :: int

definition VIP_CHAINED_TABLE_SIZE :: size_t where
  "VIP_CHAINED_TABLE_SIZE = 8192"

text \<open>
  What is outside the code during one call of \<open>fh_tx_blocking\<close>: the results of
  \<open>fh_vip_send_signed_table\<close> and \<open>fh_vip_send_chained_table\<close> (reading the table file,
  sending it, waiting for the target's ACK; \<open>SUCCESS\<close> means the table was acknowledged),
  if the call gets to them, and of \<open>fh_transport_tx_blocking\<close> for the caller's data.
\<close>

record tx_env =
  signed_table_res :: fh_res_t
  chained_table_res :: fh_res_t
  transport_tx_res :: fh_res_t

text \<open>What a call hands to the transport, in order.\<close>

datatype vip_event = Tx_signed_table | Tx_chained_table | Tx_data

definition fh_tx_blocking ::
  "tx_env \<Rightarrow> fh_transfer_data \<Rightarrow> fh_res_t \<times> fh_transfer_data \<times> vip_event list" where
  "fh_tx_blocking env vip =
     (if state vip = VIP_DISABLED then (transport_tx_res env, vip, [Tx_data])
      else if state vip = VIP_INIT \<and> signed_table_res env \<noteq> SUCCESS
      then (signed_table_res env, vip, [Tx_signed_table])
      else
        let (vip, sent) =
              (if state vip = VIP_INIT
               then (vip\<lparr>state := VIP_SEND_DATA, frame_sent := 0, frames_to_next_table := 53\<rparr>,
                     [Tx_signed_table])
               else (vip, []))
        in if state vip = VIP_SEND_NEXT_TABLE \<and> chained_table_res env \<noteq> SUCCESS
           then (chained_table_res env, vip, sent @ [Tx_chained_table])
           else
             let (vip, sent) =
                   (if state vip = VIP_SEND_NEXT_TABLE
                    then (vip\<lparr>state := VIP_SEND_DATA, frame_sent := 0,
                               frames_to_next_table := (VIP_CHAINED_TABLE_SIZE div 32) - 1\<rparr>,
                          sent @ [Tx_chained_table])
                    else (vip, sent));
                 vip = vip\<lparr>frame_sent := frame_sent vip + 1\<rparr>;
                 vip = (if frame_sent vip \<ge> frames_to_next_table vip
                        then vip\<lparr>state := VIP_SEND_NEXT_TABLE\<rparr> else vip)
             in (transport_tx_res env, vip, sent @ [Tx_data]))"

text \<open>
  A sequence of calls, one environment per call: everything handed to the transport, and
  the final state.
\<close>

fun fh_tx_blocking_calls :: "tx_env list \<Rightarrow> fh_transfer_data \<Rightarrow> vip_event list \<times> fh_transfer_data" where
  "fh_tx_blocking_calls [] vip = ([], vip)"
| "fh_tx_blocking_calls (env # envs) vip =
     (case fh_tx_blocking env vip of
        (res, vip1, sent) \<Rightarrow>
          (case fh_tx_blocking_calls envs vip1 of (sent', vip2) \<Rightarrow> (sent @ sent', vip2)))"

text \<open>
  The cadence the specification describes, as a trace: the signed table, 53 payloads, and
  then, for every chained table, the table and up to 255 payloads.  \<open>vip_cadence n\<close> is the
  trace up to the \<open>n\<close>-th payload.
\<close>

definition vip_cadence :: "nat \<Rightarrow> vip_event list" where
  "vip_cadence n =
     (if n = 0 then []
      else if n \<le> 53 then Tx_signed_table # replicate n Tx_data
      else Tx_signed_table # replicate 53 Tx_data @
           concat (replicate ((n - 53) div 255) (Tx_chained_table # replicate 255 Tx_data)) @
           (if (n - 53) mod 255 = 0 then []
            else Tx_chained_table # replicate ((n - 53) mod 255) Tx_data))"

text \<open>
  For the proof of the cadence: what the call after \<open>k\<close> payloads hands to the transport,
  and the state of the counters after \<open>k\<close> payloads from \<open>VIP_INIT\<close>.
\<close>

definition vip_call_events :: "nat \<Rightarrow> vip_event list" where
  "vip_call_events k =
     (if k = 0 then [Tx_signed_table, Tx_data]
      else if 53 \<le> k \<and> (k - 53) mod 255 = 0 then [Tx_chained_table, Tx_data]
      else [Tx_data])"

definition vip_after :: "nat \<Rightarrow> fh_transfer_data \<Rightarrow> bool" where
  "vip_after k vip \<longleftrightarrow>
     (if k = 0 then state vip = VIP_INIT
      else if k \<le> 53 then
        unat (frames_to_next_table vip) = 53 \<and> unat (frame_sent vip) = k \<and>
        state vip = (if k = 53 then VIP_SEND_NEXT_TABLE else VIP_SEND_DATA)
      else
        unat (frames_to_next_table vip) = 255 \<and> unat (frame_sent vip) = (k - 54) mod 255 + 1 \<and>
        state vip = (if (k - 53) mod 255 = 0 then VIP_SEND_NEXT_TABLE else VIP_SEND_DATA))"

section \<open>Facts about buffers\<close>

lemma length_load [simp]: "length (load m off n) = n"
  by (simp add: load_def)

lemma nth_load [simp]: "i < n \<Longrightarrow> load m off n ! i = m (off + i)"
  by (simp add: load_def)

lemma load_0 [simp]: "load m off 0 = []"
  by (simp add: load_def)

lemma load_eq_iff: "load m off n = bs \<longleftrightarrow> length bs = n \<and> (\<forall>i<n. m (off + i) = bs ! i)"
  by (auto simp: list_eq_iff_nth_eq)

lemma load_cong: "(\<And>i. i < n \<Longrightarrow> m (off + i) = m' (off' + i)) \<Longrightarrow> load m off n = load m' off' n"
  by (simp add: load_def)

lemma load_Cons: "load m off (Suc n) = m off # load m (Suc off) n"
  by (simp add: list_eq_iff_nth_eq nth_Cons split: nat.splits)

lemma load_append: "load m off (a + b) = load m off a @ load m (off + a) b"
  by (simp add: list_eq_iff_nth_eq nth_append add.assoc)

lemma load_snoc: "load m off (Suc n) = load m off n @ [m (off + n)]"
  using load_append [of m off n 1] by (simp add: load_Cons)

lemma store_apply_in: "off \<le> i \<Longrightarrow> i < off + length bs \<Longrightarrow> store m off bs i = bs ! (i - off)"
  by (simp add: store_def)

lemma store_apply_out: "i < off \<or> off + length bs \<le> i \<Longrightarrow> store m off bs i = m i"
  by (auto simp: store_def)

lemma load_store_same: "length bs = n \<Longrightarrow> load (store m off bs) off n = bs"
  by (simp add: load_eq_iff store_def)

lemma load_store_other:
  "off' + n \<le> off \<or> off + length bs \<le> off' \<Longrightarrow> load (store m off bs) off' n = load m off' n"
  by (rule load_cong) (auto simp: store_def)

lemma load_upd_other: "i < off \<or> off + n \<le> i \<Longrightarrow> load (m(i := v)) off n = load m off n"
  by (rule load_cong) auto

lemma load_mem_of: "load (mem_of bs) 0 (length bs) = bs"
  by (simp add: mem_of_def load_store_same)

lemma load_fun: "load (\<lambda>i. m (off + i)) off' n = load m (off + off') n"
  by (rule load_cong) (simp add: add.assoc)

lemma load_split:
  assumes "load e off (a + b) = xs @ ys" and "length xs = a"
  shows "load e off a = xs" and "load e (off + a) b = ys"
proof -
  have "load e off a @ load e (off + a) b = xs @ ys"
    using assms(1) by (simp add: load_append)
  moreover have "length (load e off a) = length xs"
    using assms(2) by simp
  ultimately show "load e off a = xs" and "load e (off + a) b = ys"
    by simp_all
qed

lemma unat_uint32_less: "unat (x :: uint32) < 4294967296"
  using unsigned_less [of x, where ?'a = nat] by simp

section \<open>Transport dispatch: deinit leaves the session in place\<close>

lemma transport_calls_initialised:
  "session_transport_type st \<noteq> FH_TRANSPORT_NONE \<Longrightarrow>
   transport_calls cs st =
     (map (\<lambda>c. case c of Call_init t \<Rightarrow> INVALID_PARAMETER | Call_deinit \<Rightarrow> SUCCESS) cs, st)"
proof (induction cs)
  case Nil
  show ?case by simp
next
  case (Cons c cs)
  then show ?case
    by (cases c) (simp_all add: fh_transport_deinit_def)
qed

text \<open>
  C10.  On an initialised session (the current-transport slot is not
  \<open>FH_TRANSPORT_NONE\<close>) \<open>fh_transport_deinit\<close> returns \<open>SUCCESS\<close> and hands back the state it
  was given: the slot, the transport pointer and the number of close invocations are
  unchanged.  After it every \<open>fh_transport_init\<close>, whatever its transport type, returns
  \<open>INVALID_PARAMETER\<close> and changes nothing, and so it goes on through any further sequence
  of init and deinit calls.
\<close>

theorem fh_transport_deinit_no_effect:
  assumes "session_transport_type st \<noteq> FH_TRANSPORT_NONE"
  shows "fh_transport_deinit st = (SUCCESS, st) \<and>
         (\<forall>t. fh_transport_init t (snd (fh_transport_deinit st)) = (INVALID_PARAMETER, st)) \<and>
         (\<forall>cs. transport_calls cs (snd (fh_transport_deinit st)) =
            (map (\<lambda>c. case c of Call_init t \<Rightarrow> INVALID_PARAMETER | Call_deinit \<Rightarrow> SUCCESS) cs,
             st))"
proof -
  have d: "fh_transport_deinit st = (SUCCESS, st)"
    using assms by (simp add: fh_transport_deinit_def)
  show ?thesis
    using assms by (simp add: d transport_calls_initialised)
qed

theorem fh_transport_deinit_no_effect_witness:
  "session_transport_type (snd (fh_transport_init FH_TRANSPORT_HSUART transport_state_init))
     = FH_TRANSPORT_HSUART \<and>
   fh_transport_deinit (snd (fh_transport_init FH_TRANSPORT_HSUART transport_state_init)) =
     (SUCCESS, \<lparr>session_transport_type = FH_TRANSPORT_HSUART,
                transport = Some FH_TRANSPORT_HSUART, close_calls = 0\<rparr>) \<and>
   fh_transport_init FH_TRANSPORT_COM
     (snd (fh_transport_deinit (snd (fh_transport_init FH_TRANSPORT_HSUART transport_state_init)))) =
     (INVALID_PARAMETER, \<lparr>session_transport_type = FH_TRANSPORT_HSUART,
                transport = Some FH_TRANSPORT_HSUART, close_calls = 0\<rparr>)"
proof -
  let ?st = "snd (fh_transport_init FH_TRANSPORT_HSUART transport_state_init)"
  have h: "session_transport_type ?st \<noteq> FH_TRANSPORT_NONE"
    by (simp add: transport_state_init_def)
  show ?thesis
    using fh_transport_deinit_no_effect [OF h]
    by (simp add: transport_state_init_def)
qed

section \<open>HSUART transport: the retry loops of the blocking read and write\<close>

lemma fh_transport_hsuart_rx_blocking_loop_once:
  "fh_transport_hsuart_rx_blocking_loop reads retry k =
     (if reads k = 0 \<or> retry = 1 then (READ_PORT_ERROR, k + 1) else (SUCCESS, k + 1))"
  by (subst fh_transport_hsuart_rx_blocking_loop.simps) (auto simp: Let_def word_greater_zero_iff)

lemma fh_transport_hsuart_rx_blocking_once:
  "fh_transport_hsuart_rx_blocking reads =
     (if reads 0 = 0 then (READ_PORT_ERROR, 1) else (SUCCESS, 1))"
  by (simp add: fh_transport_hsuart_rx_blocking_def fh_transport_hsuart_rx_blocking_loop_once)

lemma fh_transport_hsuart_tx_blocking_loop_bound:
  "fst (fh_transport_hsuart_tx_blocking_loop writes sz bytes_written retry k)
     \<in> {SUCCESS, READ_PORT_ERROR} \<and>
   k < snd (fh_transport_hsuart_tx_blocking_loop writes sz bytes_written retry k) \<and>
   snd (fh_transport_hsuart_tx_blocking_loop writes sz bytes_written retry k)
     \<le> k + unat (retry - 1) + 1"
proof (induction writes sz bytes_written retry k
       rule: fh_transport_hsuart_tx_blocking_loop.induct)
  case (1 writes sz bytes_written retry k)
  show ?case
  proof (cases "0 < bytes_written + writes k \<and> retry - 1 \<noteq> 0
                \<and> unat (bytes_written + writes k) < sz")
    case True
    then have r: "retry \<noteq> 1" by auto
    have "unat (retry - 1 - 1) < unat (retry - 1)"
      using True by (intro unat_dec_less) simp
    then have "Suc (unat (retry - 2)) \<le> unat (retry - 1)" by simp
    with True r "1.IH" [OF refl refl _ refl] show ?thesis
      by (subst (1 2 3) fh_transport_hsuart_tx_blocking_loop.simps) (auto simp: Let_def)
  next
    case False
    then show ?thesis
      by (subst (1 2 3) fh_transport_hsuart_tx_blocking_loop.simps) (auto simp: Let_def)
  qed
qed

lemma fh_transport_hsuart_tx_blocking_bound:
  "fst (fh_transport_hsuart_tx_blocking writes sz) \<in> {SUCCESS, READ_PORT_ERROR} \<and>
   1 \<le> snd (fh_transport_hsuart_tx_blocking writes sz) \<and>
   snd (fh_transport_hsuart_tx_blocking writes sz) \<le> 100"
  using fh_transport_hsuart_tx_blocking_loop_bound [of writes sz 0 100 0]
  by (simp add: fh_transport_hsuart_tx_blocking_def)

text \<open>
  C7.  Both loops stop after at most 100 attempts (the read loop in fact after one:
  \<open>fh_transport_hsuart_rx_blocking_once\<close>, the write loop by
  \<open>fh_transport_hsuart_tx_blocking_bound\<close>).  But the write loop reports a failure as
  \<open>READ_PORT_ERROR\<close>, never as \<open>WRITE_PORT_ERROR\<close>: when the first write attempt writes
  nothing, and when 100 attempts of one byte each have not written the 1000 bytes asked
  for.
\<close>

theorem fh_transport_hsuart_tx_blocking_reports_read_error:
  "fh_transport_hsuart_tx_blocking (\<lambda>k. 0) 16 = (READ_PORT_ERROR, 1) \<and>
   fh_transport_hsuart_tx_blocking (\<lambda>k. 1) 1000 = (READ_PORT_ERROR, 100) \<and>
   fst (fh_transport_hsuart_tx_blocking writes sz) \<noteq> WRITE_PORT_ERROR"
proof -
  have a: "fh_transport_hsuart_tx_blocking (\<lambda>k. 0) 16 = (READ_PORT_ERROR, 1)"
    by (simp add: fh_transport_hsuart_tx_blocking_def fh_transport_hsuart_tx_blocking_loop.simps)
  have b: "fh_transport_hsuart_tx_blocking (\<lambda>k. 1) 1000 = (READ_PORT_ERROR, 100)"
    by (simp add: fh_transport_hsuart_tx_blocking_def fh_transport_hsuart_tx_blocking_loop.simps)
  have c: "fst (fh_transport_hsuart_tx_blocking writes sz) \<noteq> WRITE_PORT_ERROR"
    using fh_transport_hsuart_tx_blocking_bound [of writes sz] by auto
  from a b c show ?thesis by simp
qed

section \<open>HSUART transport: fragmentation of a write\<close>

lemma fh_hsuart_packet_encode_empty_payload:
  "packet_id = PROTOCOL_PACKET \<or> packet_id = END_OF_TRANSFER_PACKET \<Longrightarrow>
   fh_hsuart_packet_encode crc be packet_id (Some src) 0 dst dst_length =
     (0, HSUART_INVALID_PARAM_ERROR, dst)"
  by (auto simp: fh_hsuart_packet_encode_def fh_packet_encode_def fh_packet_encode_payload_def)

text \<open>
  C3.  A write of exactly 4000 bytes, after a completed rendezvous and whatever the link
  would do: \<open>packet_count\<close> is 1, the only fragment is the last one, its \<open>transfer_size\<close> is
  \<open>4000 % 4000 = 0\<close>, the packet encoder rejects the empty END\_OF\_TRANSFER payload, and
  nothing is put on the wire; \<open>*bytes_written\<close> stays 0 and the function returns 0.
\<close>

theorem fh_transport_hsuart_write_exact_multiple:
  "fh_transport_hsuart_write crc be True write_buffer 4000 0 es = Some (False, 0, [], es)"
  by (simp add: fh_transport_hsuart_write_def MAX_HSUART_PACKET_DATA_SIZE_def
        fh_transport_hsuart_write_loop.simps write_hsuart_packet_def
        fh_hsuart_packet_encode_empty_payload)

section \<open>HSUART transport: the invariant of the receive ring\<close>

lemma unat_ONE_MEGA_BYTE: "unat (of_nat ONE_MEGA_BYTE :: uint32) = ONE_MEGA_BYTE"
  by (simp add: ONE_MEGA_BYTE_def)

lemma ring_inv_length: "ring_inv r \<Longrightarrow> unat (buffered_length r) \<le> ONE_MEGA_BYTE"
  by (simp add: ring_inv_def)

lemma ring_free_space:
  assumes "ring_inv r"
  shows "unat (of_nat ONE_MEGA_BYTE - buffered_length r) = ONE_MEGA_BYTE - unat (buffered_length r)"
proof -
  have "buffered_length r \<le> of_nat ONE_MEGA_BYTE"
    using ring_inv_length [OF assms] by (simp add: word_le_nat_alt unat_ONE_MEGA_BYTE)
  then show ?thesis
    by (simp add: unat_sub unat_ONE_MEGA_BYTE)
qed

lemma ring_inv_init: "ring_inv hsuart_ring_init"
  by (simp add: ring_inv_def hsuart_ring_init_def)

lemma ring_inv_add:
  assumes "ring_inv r"
  shows "ring_inv (snd (add_data_to_buffer Ptrdiff_64 buffer len r))"
proof (cases "fst (add_data_to_buffer Ptrdiff_64 buffer len r)")
  case False
  then show ?thesis
    using assms by (simp add: add_data_to_buffer_def split: if_splits)
next
  case True
  then have c: "int (unat len) <
      int (ONE_MEGA_BYTE - unat (buffered_length r)) - int (buffered_data_end_ptr r)"
    by (simp add: add_data_to_buffer_def ring_free_space [OF assms] split: if_splits)
  then have fit: "unat (buffered_length r) + buffered_data_end_ptr r + unat len < ONE_MEGA_BYTE"
    by linarith
  have "unat (buffered_length r) + unat len < 2 ^ 32"
    using fit by (simp add: ONE_MEGA_BYTE_def)
  then have "unat (buffered_length r + len) = unat (buffered_length r) + unat len"
    by (simp add: unat_add_lem [THEN iffD1])
  with assms fit c show ?thesis
    by (simp add: add_data_to_buffer_def ring_free_space [OF assms] ring_inv_def)
qed

lemma ring_inv_get:
  assumes "ring_inv r"
  shows "ring_inv (snd (snd (get_data_from_buffer buffer requested_length r)))"
proof (cases "requested_length < buffered_length r")
  case True
  then have "requested_length \<le> buffered_length r"
    by simp
  then have "unat (buffered_length r - requested_length)
               = unat (buffered_length r) - unat requested_length"
    by (rule unat_sub)
  moreover have "unat requested_length < unat (buffered_length r)"
    using True by (simp add: word_less_nat_alt)
  ultimately show ?thesis
    using True assms
    by (simp add: get_data_from_buffer_def ring_inv_def)
next
  case False
  then show ?thesis
    by (simp add: get_data_from_buffer_def ring_inv_def)
qed

lemma ring_inv_foldl: "ring_inv r \<Longrightarrow> ring_inv (foldl (ring_step Ptrdiff_64) r ops)"
proof (induction ops arbitrary: r)
  case Nil
  then show ?case by simp
next
  case (Cons op ops)
  have "ring_inv (ring_step Ptrdiff_64 r op)"
    using Cons.prems by (cases op) (simp_all add: ring_inv_add ring_inv_get)
  then show ?case
    using Cons.IH by simp
qed

lemma ring_inv_run: "ring_inv (ring_run Ptrdiff_64 ops)"
  by (simp add: ring_run_def ring_inv_foldl ring_inv_init)

lemma add_data_to_buffer_no_room:
  assumes "ring_inv r" and "ONE_MEGA_BYTE < buffered_data_end_ptr r + unat len"
  shows "add_data_to_buffer Ptrdiff_64 buffer len r = (False, r)"
proof -
  have "\<not> int (unat len) <
      int (unat (of_nat ONE_MEGA_BYTE - buffered_length r)) - int (buffered_data_end_ptr r)"
    unfolding ring_free_space [OF assms(1)] using assms(2) by linarith
  then show ?thesis
    unfolding add_data_to_buffer_def by (simp only: ptrdiff_t_width.case if_False)
qed

lemma get_data_from_buffer_length:
  "fst (get_data_from_buffer buffer requested_length r) = min requested_length (buffered_length r)"
  by (auto simp: get_data_from_buffer_def min_def)

lemma get_data_from_buffer_some:
  assumes "requested_length < buffered_length r"
  shows "buffered_length (snd (snd (get_data_from_buffer buffer requested_length r))) \<noteq> 0"
    and "buffered_data_start_ptr (snd (snd (get_data_from_buffer buffer requested_length r)))
           = buffered_data_start_ptr r + unat requested_length"
    and "buffered_data_end_ptr (snd (snd (get_data_from_buffer buffer requested_length r)))
           = buffered_data_end_ptr r"
  using assms by (auto simp: get_data_from_buffer_def)

lemma get_data_from_buffer_all:
  assumes "\<not> requested_length < buffered_length r"
  shows "snd (snd (get_data_from_buffer buffer requested_length r)) =
           r\<lparr>buffered_data_start_ptr := 0, buffered_data_end_ptr := 0, buffered_length := 0\<rparr>"
  using assms by (simp add: get_data_from_buffer_def)

lemma get_data_from_buffer_bytes:
  "fst (snd (get_data_from_buffer buffer requested_length r)) =
     store buffer 0 (load (buffered_data r) (buffered_data_start_ptr r)
       (unat (min requested_length (buffered_length r))))"
  by (auto simp: get_data_from_buffer_def memscpy_def Let_def min_def)

lemma add_data_to_buffer_bytes:
  "fst (add_data_to_buffer w buffer len r) \<Longrightarrow>
   buffered_data (snd (add_data_to_buffer w buffer len r)) =
     store (buffered_data r) (buffered_data_end_ptr r) (load buffer 0 (unat len))"
  by (simp add: add_data_to_buffer_def memscpy_def Let_def split: if_splits)

text \<open>
  With a 64-bit \<open>ptrdiff_t\<close> the ring keeps its invariant.  Let \<open>r\<close> be the ring after any
  sequence of \<open>add_data_to_buffer\<close> and \<open>get_data_from_buffer\<close> calls from the initial state.
  Then \<open>buffered_length\<close> is \<open>end_ptr - start_ptr\<close> with
  \<open>base \<le> start_ptr \<le> end_ptr \<le> base + 1 MiB\<close> (the pointers are offsets from the base); an
  \<open>add_data_to_buffer\<close> whose data would pass the end of the array returns \<open>FALSE\<close> and
  leaves the ring as it is; and \<open>get_data_from_buffer\<close> returns
  \<open>min requested_length buffered_length\<close> and has copied that many bytes, from the start
  pointer on, to the front of the caller's buffer; if that is all that was buffered it
  empties the ring and puts both pointers back to the base, and otherwise it leaves a
  non-empty ring whose start pointer has advanced by the bytes fetched.
\<close>

lemma hsuart_ring_invariant_ptrdiff_64:
  fixes ops :: "ring_op list"
  defines "r \<equiv> ring_run Ptrdiff_64 ops"
  shows "ring_inv r \<and>
    (ONE_MEGA_BYTE < buffered_data_end_ptr r + unat len \<longrightarrow>
       add_data_to_buffer Ptrdiff_64 buffer len r = (False, r)) \<and>
    fst (get_data_from_buffer buffer requested_length r)
      = min requested_length (buffered_length r) \<and>
    fst (snd (get_data_from_buffer buffer requested_length r)) =
      store buffer 0 (load (buffered_data r) (buffered_data_start_ptr r)
        (unat (min requested_length (buffered_length r)))) \<and>
    (buffered_length r \<le> requested_length \<longrightarrow>
       snd (snd (get_data_from_buffer buffer requested_length r)) =
         r\<lparr>buffered_data_start_ptr := 0, buffered_data_end_ptr := 0, buffered_length := 0\<rparr>) \<and>
    (requested_length < buffered_length r \<longrightarrow>
       buffered_length (snd (snd (get_data_from_buffer buffer requested_length r))) \<noteq> 0 \<and>
       buffered_data_start_ptr (snd (snd (get_data_from_buffer buffer requested_length r)))
         = buffered_data_start_ptr r + unat requested_length \<and>
       buffered_data_end_ptr (snd (snd (get_data_from_buffer buffer requested_length r)))
         = buffered_data_end_ptr r)"
proof -
  have i: "ring_inv r"
    unfolding r_def by (rule ring_inv_run)
  show ?thesis
    using i add_data_to_buffer_no_room [OF i, of len buffer]
      get_data_from_buffer_length [of buffer requested_length r]
      get_data_from_buffer_bytes [of buffer requested_length r]
      get_data_from_buffer_some [of requested_length r buffer]
      get_data_from_buffer_all [of requested_length r buffer]
    by (simp add: not_less)
qed

subsection \<open>The ring with a 32-bit pointer difference\<close>

text \<open>
  The free-space expression in \<open>uint32\<close>, in a ring that holds \<open>m\<close> blocks of 3980 bytes
  and has given none back.  Up to 131 blocks it is the honest \<open>1048576 - 7960 * m\<close>; from
  132 blocks on \<open>buffered_length + (end_ptr - base)\<close> exceeds 1 MiB and the expression has
  wrapped to a value near \<open>2^32\<close>.
\<close>

lemma ptrdiff_32_free_space:
  assumes "m < 264"
  shows "(3980 :: uint32) < of_nat ONE_MEGA_BYTE - of_nat (3980 * m) - of_nat (3980 * m)"
proof (cases "m \<le> 131")
  case True
  then have "of_nat ONE_MEGA_BYTE - of_nat (3980 * m) - of_nat (3980 * m)
      = (of_nat (1048576 - 7960 * m) :: uint32)"
    by (simp add: ONE_MEGA_BYTE_def)
  moreover have "unat (of_nat (1048576 - 7960 * m) :: uint32) = 1048576 - 7960 * m"
    by (simp add: unsigned_of_nat take_bit_nat_eq_self)
  ultimately show ?thesis
    using True by (simp add: word_less_nat_alt)
next
  case False
  have "(of_nat (4294967296 + 1048576 - 7960 * m) :: uint32)
      = of_nat 4294967296 + of_nat ONE_MEGA_BYTE - of_nat (3980 * m) - of_nat (3980 * m)"
    using assms by (simp add: ONE_MEGA_BYTE_def)
  moreover have "(of_nat 4294967296 :: uint32) = 0"
    by simp
  ultimately have "of_nat ONE_MEGA_BYTE - of_nat (3980 * m) - of_nat (3980 * m)
      = (of_nat (4294967296 + 1048576 - 7960 * m) :: uint32)"
    by simp
  moreover have "unat (of_nat (4294967296 + 1048576 - 7960 * m) :: uint32)
      = 4294967296 + 1048576 - 7960 * m"
    using False by (simp add: unsigned_of_nat take_bit_nat_eq_self)
  ultimately show ?thesis
    using assms by (simp add: word_less_nat_alt)
qed

lemma ring_run_snoc: "ring_run w (ops @ [op]) = ring_step w (ring_run w ops) op"
  by (simp add: ring_run_def)

lemma ptrdiff_32_blocks:
  assumes "m \<le> 264"
  shows "buffered_length (ring_run Ptrdiff_32 (replicate m (Ring_add buffer 3980)))
           = of_nat (3980 * m) \<and>
         buffered_data_end_ptr (ring_run Ptrdiff_32 (replicate m (Ring_add buffer 3980)))
           = 3980 * m \<and>
         buffered_data_start_ptr (ring_run Ptrdiff_32 (replicate m (Ring_add buffer 3980))) = 0"
  using assms
proof (induction m)
  case 0
  show ?case
    by (simp add: ring_run_def hsuart_ring_init_def)
next
  case (Suc m)
  let ?r = "ring_run Ptrdiff_32 (replicate m (Ring_add buffer 3980))"
  have r: "buffered_length ?r = of_nat (3980 * m)" "buffered_data_end_ptr ?r = 3980 * m"
    "buffered_data_start_ptr ?r = 0"
    using Suc by simp_all
  have fits: "(3980 :: uint32) < of_nat ONE_MEGA_BYTE - of_nat (3980 * m) - of_nat (3980 * m)"
    using Suc.prems by (intro ptrdiff_32_free_space) simp
  have "replicate (Suc m) (Ring_add buffer 3980)
      = replicate m (Ring_add buffer 3980) @ [Ring_add buffer 3980]"
    by (simp add: replicate_append_same)
  then have step: "ring_run Ptrdiff_32 (replicate (Suc m) (Ring_add buffer 3980))
      = snd (add_data_to_buffer Ptrdiff_32 buffer 3980 ?r)"
    by (simp only: ring_run_snoc ring_step.simps)
  show ?case
    unfolding step using fits by (simp add: add_data_to_buffer_def r)
qed

text \<open>
  C9.  With a 32-bit \<open>ptrdiff_t\<close> the ring does not keep its invariant.  From the initial
  state, 263 calls of \<open>add_data_to_buffer\<close> with 3980 bytes each leave a ring that satisfies
  the invariant, with \<open>end_ptr\<close> at offset 1046740 and so 1836 bytes short of the end of the
  array.  One more call with 3980 bytes, which do not fit, returns \<open>TRUE\<close> and moves
  \<open>end_ptr\<close> to offset 1050720, past \<open>base + 1 MiB\<close>.  The free-space expression counts the
  buffered bytes twice, in \<open>buffered_length\<close> and in \<open>end_ptr - base\<close>; after the 132nd
  call the two together exceed 1 MiB, and from then on the unsigned expression has wrapped
  (\<open>ptrdiff_32_free_space\<close>).
\<close>

theorem add_data_to_buffer_ptrdiff_32_overrun:
  "ring_inv (ring_run Ptrdiff_32 (replicate 263 (Ring_add buffer 3980))) \<and>
   buffered_data_end_ptr (ring_run Ptrdiff_32 (replicate 263 (Ring_add buffer 3980))) = 1046740 \<and>
   fst (add_data_to_buffer Ptrdiff_32 buffer 3980
          (ring_run Ptrdiff_32 (replicate 263 (Ring_add buffer 3980)))) \<and>
   buffered_data_end_ptr
     (snd (add_data_to_buffer Ptrdiff_32 buffer 3980
        (ring_run Ptrdiff_32 (replicate 263 (Ring_add buffer 3980))))) = 1050720 \<and>
   \<not> ring_inv
     (snd (add_data_to_buffer Ptrdiff_32 buffer 3980
        (ring_run Ptrdiff_32 (replicate 263 (Ring_add buffer 3980)))))"
proof -
  let ?r = "ring_run Ptrdiff_32 (replicate 263 (Ring_add buffer 3980))"
  have r: "buffered_length ?r = 1046740" "buffered_data_end_ptr ?r = 1046740"
    "buffered_data_start_ptr ?r = 0"
    using ptrdiff_32_blocks [of 263 buffer] by simp_all
  have fits: "(3980 :: uint32) < of_nat ONE_MEGA_BYTE - 1046740 - 1046740"
    using ptrdiff_32_free_space [of 263] by simp
  show ?thesis
    using fits by (simp add: add_data_to_buffer_def ring_inv_def r ONE_MEGA_BYTE_def)
qed

section \<open>Verified image programming: the cadence of the tables\<close>

lemma fh_tx_blocking_send_data:
  assumes "state vip = VIP_SEND_DATA"
  shows "fh_tx_blocking env vip =
           (transport_tx_res env,
            vip\<lparr>frame_sent := frame_sent vip + 1,
                state := (if frames_to_next_table vip \<le> frame_sent vip + 1
                          then VIP_SEND_NEXT_TABLE else VIP_SEND_DATA)\<rparr>,
            [Tx_data])"
  using assms by (simp add: fh_tx_blocking_def)

lemma unat_size_t_Suc: "unat (x :: size_t) \<le> 255 \<Longrightarrow> unat (x + 1) = Suc (unat x)"
proof -
  assume "unat x \<le> 255"
  then have "x < 256" by (simp add: word_less_nat_alt)
  then show ?thesis by (rule unat_less_Suc)
qed

lemma vip_table_size: "unat (VIP_CHAINED_TABLE_SIZE div 32 - 1) = 255"
  by (simp add: VIP_CHAINED_TABLE_SIZE_def)

lemma mod255_Suc:
  "Suc m mod 255 = (if m mod 255 = 254 then 0 else Suc (m mod 255))"
  by (simp add: mod_Suc)

lemma div255_Suc:
  "Suc m div 255 = (if m mod 255 = 254 then Suc (m div 255) else m div 255)"
  by (simp add: div_Suc mod_Suc)

lemma mod255_less: "(m::nat) mod 255 \<noteq> 254 \<Longrightarrow> m mod 255 < 254"
proof -
  assume "m mod 255 \<noteq> 254"
  moreover have "m mod 255 < 255" by simp
  ultimately show ?thesis by linarith
qed

lemma later_position: "53 < (k::nat) \<Longrightarrow> \<exists>m. k = m + 54"
proof -
  assume "53 < k"
  then have "k = (k - 54) + 54" by simp
  then show ?thesis ..
qed

lemma vip_after_later:
  "vip_after (m + 54) vip \<longleftrightarrow>
     unat (frames_to_next_table vip) = 255 \<and> unat (frame_sent vip) = Suc (m mod 255) \<and>
     state vip = (if m mod 255 = 254 then VIP_SEND_NEXT_TABLE else VIP_SEND_DATA)"
  by (simp add: vip_after_def mod255_Suc)

lemma vip_call_events_later:
  "vip_call_events (m + 54) = (if m mod 255 = 254 then [Tx_chained_table, Tx_data] else [Tx_data])"
  by (simp add: vip_call_events_def mod255_Suc)

lemma fh_tx_blocking_step_init:
  assumes "state vip = VIP_INIT" and "signed_table_res env = SUCCESS"
  shows "snd (snd (fh_tx_blocking env vip)) = vip_call_events 0 \<and>
         vip_after (Suc 0) (fst (snd (fh_tx_blocking env vip)))"
  using assms
  by (simp add: vip_after_def vip_call_events_def fh_tx_blocking_def Let_def word_le_nat_alt)

lemma fh_tx_blocking_step_table:
  assumes "state vip = VIP_SEND_NEXT_TABLE" and "chained_table_res env = SUCCESS"
  shows "fh_tx_blocking env vip =
           (transport_tx_res env,
            vip\<lparr>state := VIP_SEND_DATA, frame_sent := 1,
                frames_to_next_table := VIP_CHAINED_TABLE_SIZE div 32 - 1\<rparr>,
            [Tx_chained_table, Tx_data])"
proof -
  have "\<not> VIP_CHAINED_TABLE_SIZE div 32 - 1 \<le> 1"
    by (simp add: word_le_nat_alt vip_table_size)
  with assms show ?thesis
    by (simp add: fh_tx_blocking_def Let_def)
qed

lemma fh_tx_blocking_step_later:
  assumes pos: "vip_after (m + 54) vip" and ack: "chained_table_res env = SUCCESS"
  shows "snd (snd (fh_tx_blocking env vip)) = vip_call_events (m + 54) \<and>
         vip_after (Suc m + 54) (fst (snd (fh_tx_blocking env vip)))"
proof (cases "m mod 255 = 254")
  case True
  with pos have s: "state vip = VIP_SEND_NEXT_TABLE"
    by (simp add: vip_after_later)
  show ?thesis
    unfolding vip_after_later vip_call_events_later fh_tx_blocking_step_table [OF s ack]
    using True by (simp add: vip_table_size mod255_Suc)
next
  case False
  note l = mod255_less [OF False]
  from pos False have s: "state vip = VIP_SEND_DATA"
    "unat (frame_sent vip) = Suc (m mod 255)" "unat (frames_to_next_table vip) = 255"
    by (simp_all add: vip_after_later)
  have u: "unat (frame_sent vip + 1) = Suc (Suc (m mod 255))"
    using s l by (simp add: unat_size_t_Suc)
  show ?thesis
    unfolding vip_after_later vip_call_events_later fh_tx_blocking_send_data [OF s(1)]
    using False l s u by (auto simp: word_le_nat_alt mod255_Suc)
qed

lemma fh_tx_blocking_step:
  assumes pos: "vip_after k vip"
    and ack: "signed_table_res env = SUCCESS" "chained_table_res env = SUCCESS"
  shows "snd (snd (fh_tx_blocking env vip)) = vip_call_events k \<and>
         vip_after (Suc k) (fst (snd (fh_tx_blocking env vip)))"
proof -
  consider (init) "k = 0" | (first) "0 < k" "k < 53" | (table1) "k = 53" | (later) "53 < k"
    by linarith
  then show ?thesis
  proof cases
    case init
    with pos have "state vip = VIP_INIT"
      by (simp add: vip_after_def)
    with init ack show ?thesis
      by (simp add: fh_tx_blocking_step_init)
  next
    case first
    with pos have s: "state vip = VIP_SEND_DATA" "unat (frame_sent vip) = k"
      "unat (frames_to_next_table vip) = 53"
      by (simp_all add: vip_after_def)
    have u: "unat (frame_sent vip + 1) = Suc k"
      using s first by (simp add: unat_size_t_Suc)
    show ?thesis
      using first s u
      by (auto simp: fh_tx_blocking_send_data vip_after_def vip_call_events_def word_le_nat_alt)
  next
    case table1
    with pos have s: "state vip = VIP_SEND_NEXT_TABLE"
      by (simp add: vip_after_def)
    show ?thesis
      using table1
      by (simp add: fh_tx_blocking_step_table [OF s ack(2)] vip_after_def vip_call_events_def
            vip_table_size)
  next
    case later
    then obtain m where k: "k = m + 54"
      using later_position by blast
    show ?thesis
      using fh_tx_blocking_step_later [OF pos [unfolded k] ack(2)]
      unfolding k by simp
  qed
qed

lemma vip_cadence_later:
  "vip_cadence (m + 54) =
     Tx_signed_table # replicate 53 Tx_data @
     concat (replicate (Suc m div 255) (Tx_chained_table # replicate 255 Tx_data)) @
     (if Suc m mod 255 = 0 then [] else Tx_chained_table # replicate (Suc m mod 255) Tx_data)"
  by (simp add: vip_cadence_def)

lemma vip_cadence_Suc_later:
  "vip_cadence (Suc m + 54) = vip_cadence (m + 54) @ vip_call_events (m + 54)"
proof -
  let ?B = "Tx_chained_table # replicate 255 Tx_data"
  consider (table) "m mod 255 = 254" | (last) "m mod 255 = 253"
    | (data) "m mod 255 \<noteq> 254" "m mod 255 \<noteq> 253"
    by blast
  then show ?thesis
  proof cases
    case table
    then have "Suc m mod 255 = 0" "Suc (Suc m) mod 255 = 1"
      "Suc (Suc m) div 255 = Suc m div 255"
      by (simp_all add: mod255_Suc div255_Suc)
    with table show ?thesis
      unfolding vip_cadence_later vip_call_events_later by simp
  next
    case last
    then have e: "Suc m mod 255 = 254" "Suc (Suc m) mod 255 = 0"
      "Suc (Suc m) div 255 = Suc (Suc m div 255)"
      by (simp_all add: mod255_Suc div255_Suc)
    have "replicate (Suc 254) Tx_data = replicate 254 Tx_data @ [Tx_data]"
      by (simp only: replicate_Suc replicate_append_same)
    then have b: "replicate 255 Tx_data = replicate 254 Tx_data @ [Tx_data]"
      by simp
    have "replicate (Suc (Suc m div 255)) ?B = replicate (Suc m div 255) ?B @ [?B]"
      by (simp only: replicate_Suc replicate_append_same)
    then have c: "concat (replicate (Suc (Suc m div 255)) ?B)
               = concat (replicate (Suc m div 255) ?B) @ ?B"
      by simp
    show ?thesis
      unfolding vip_cadence_later vip_call_events_later e c
      using last b by simp
  next
    case data
    then have e: "Suc m mod 255 = Suc (m mod 255)" "Suc (m mod 255) \<noteq> 254"
      by (simp_all add: mod255_Suc)
    then have e': "Suc (Suc m) mod 255 = Suc (Suc (m mod 255))"
      "Suc (Suc m) div 255 = Suc m div 255"
      by (simp_all add: mod255_Suc [of "Suc m"] div255_Suc [of "Suc m"])
    show ?thesis
      unfolding vip_cadence_later vip_call_events_later e e'
      using data by (simp add: replicate_append_same)
  qed
qed

lemma vip_cadence_Suc: "vip_cadence (Suc n) = vip_cadence n @ vip_call_events n"
proof -
  consider (init) "n = 0" | (first) "0 < n" "n < 53" | (table1) "n = 53" | (later) "53 < n"
    by linarith
  then show ?thesis
  proof cases
    case init
    then show ?thesis by (simp add: vip_cadence_def vip_call_events_def)
  next
    case first
    then show ?thesis
      by (simp add: vip_cadence_def vip_call_events_def replicate_append_same)
  next
    case table1
    then show ?thesis by (simp add: vip_cadence_def vip_call_events_def)
  next
    case later
    then obtain m where n: "n = m + 54"
      using later_position by blast
    show ?thesis
      using vip_cadence_Suc_later [of m]
      unfolding n by simp
  qed
qed

lemma fh_tx_blocking_calls_cadence:
  assumes "vip_after k vip"
    and "\<forall>env \<in> set envs. signed_table_res env = SUCCESS \<and> chained_table_res env = SUCCESS"
  shows "vip_cadence k @ fst (fh_tx_blocking_calls envs vip) = vip_cadence (k + length envs)"
  using assms
proof (induction envs arbitrary: k vip)
  case Nil
  show ?case by simp
next
  case (Cons env envs)
  from Cons.prems have ack: "signed_table_res env = SUCCESS" "chained_table_res env = SUCCESS"
    by simp_all
  note step = fh_tx_blocking_step [OF Cons.prems(1) ack]
  obtain res vip1 sent where e: "fh_tx_blocking env vip = (res, vip1, sent)"
    by (cases "fh_tx_blocking env vip") auto
  with step have s: "sent = vip_call_events k" "vip_after (Suc k) vip1"
    by simp_all
  have "\<forall>env \<in> set envs. signed_table_res env = SUCCESS \<and> chained_table_res env = SUCCESS"
    using Cons.prems(2) by simp
  then have ih: "vip_cadence (Suc k) @ fst (fh_tx_blocking_calls envs vip1)
          = vip_cadence (Suc k + length envs)"
    by (rule Cons.IH [OF s(2)])
  have "fst (fh_tx_blocking_calls (env # envs) vip)
          = vip_call_events k @ fst (fh_tx_blocking_calls envs vip1)"
    using e s by (simp split: prod.splits)
  then have "vip_cadence k @ fst (fh_tx_blocking_calls (env # envs) vip)
          = vip_cadence (Suc k) @ fst (fh_tx_blocking_calls envs vip1)"
    by (simp add: vip_cadence_Suc)
  with ih show ?case by simp
qed

text \<open>
  C4.  From state \<open>VIP_INIT\<close>, over any sequence of \<open>fh_tx_blocking\<close> calls in which the
  table transmissions are acknowledged (the payload transmissions may fail), what is
  handed to the transport is the signed table, 53 payloads, and then repeatedly a chained
  table and 255 payloads: \<open>vip_cadence\<close>.  And every call in state \<open>VIP_SEND_DATA\<close>
  transmits the caller's data, increments \<open>frame_sent\<close> and goes to \<open>VIP_SEND_NEXT_TABLE\<close>
  exactly when the incremented \<open>frame_sent\<close> has reached \<open>frames_to_next_table\<close>.
\<close>

theorem fh_tx_blocking_cadence:
  assumes "state vip = VIP_INIT"
    and "\<forall>env \<in> set envs. signed_table_res env = SUCCESS \<and> chained_table_res env = SUCCESS"
  shows "fst (fh_tx_blocking_calls envs vip) = vip_cadence (length envs) \<and>
         (\<forall>env v. state v = VIP_SEND_DATA \<longrightarrow>
            fh_tx_blocking env v =
              (transport_tx_res env,
               v\<lparr>frame_sent := frame_sent v + 1,
                  state := (if frames_to_next_table v \<le> frame_sent v + 1
                            then VIP_SEND_NEXT_TABLE else VIP_SEND_DATA)\<rparr>,
               [Tx_data]))"
proof -
  have "vip_after 0 vip"
    using assms(1) by (simp add: vip_after_def)
  from fh_tx_blocking_calls_cadence [OF this assms(2)]
  have "fst (fh_tx_blocking_calls envs vip) = vip_cadence (length envs)"
    by (simp add: vip_cadence_def)
  then show ?thesis
    by (simp add: fh_tx_blocking_send_data)
qed

theorem fh_tx_blocking_cadence_witness:
  "fst (fh_tx_blocking_calls
          (replicate 54 \<lparr>signed_table_res = SUCCESS, chained_table_res = SUCCESS,
                         transport_tx_res = SUCCESS\<rparr>)
          \<lparr>state = VIP_INIT, digests_per_table = 256, frame_sent = 0,
           frames_to_next_table = 53, chained_table_size = 16384\<rparr>)
     = Tx_signed_table # replicate 53 Tx_data @ [Tx_chained_table, Tx_data] \<and>
   fh_tx_blocking
     \<lparr>signed_table_res = SUCCESS, chained_table_res = SUCCESS, transport_tx_res = WRITE_PORT_ERROR\<rparr>
     \<lparr>state = VIP_SEND_DATA, digests_per_table = 256, frame_sent = 52,
      frames_to_next_table = 53, chained_table_size = 16384\<rparr>
     = (WRITE_PORT_ERROR,
        \<lparr>state = VIP_SEND_NEXT_TABLE, digests_per_table = 256, frame_sent = 53,
         frames_to_next_table = 53, chained_table_size = 16384\<rparr>,
        [Tx_data])"
proof -
  let ?env = "\<lparr>signed_table_res = SUCCESS, chained_table_res = SUCCESS,
               transport_tx_res = SUCCESS\<rparr>"
  let ?vip = "\<lparr>state = VIP_INIT, digests_per_table = 256, frame_sent = 0,
               frames_to_next_table = 53, chained_table_size = 16384\<rparr>"
  have h1: "state ?vip = VIP_INIT" by simp
  have h2: "\<forall>env \<in> set (replicate 54 ?env).
              signed_table_res env = SUCCESS \<and> chained_table_res env = SUCCESS"
    by simp
  have c: "vip_cadence 54 = Tx_signed_table # replicate 53 Tx_data @ [Tx_chained_table, Tx_data]"
    by (simp add: vip_cadence_def)
  show ?thesis
    using fh_tx_blocking_cadence [OF h1 h2] c
    by simp
qed

section \<open>Typed packets: decoding what was encoded\<close>

lemma LITTLE_TO_BIG_SHORT_bits:
  "LITTLE_TO_BIG_SHORT x = push_bit 8 (take_bit 8 x) OR drop_bit 8 x"
proof -
  have m: "(0xff :: uint16) = mask 8"
    by (simp add: mask_eq_exp_minus_1)
  show ?thesis
    unfolding LITTLE_TO_BIG_SHORT_def m
    by (rule bit_word_eqI) (auto simp: bit_simps dest: bit_imp_le_length)
qed

lemma LITTLE_TO_BIG_SHORT_twice: "LITTLE_TO_BIG_SHORT (LITTLE_TO_BIG_SHORT x) = x"
  unfolding LITTLE_TO_BIG_SHORT_bits
  by (rule bit_word_eqI) (auto simp: bit_simps)

lemma uint16_of_bytes_inverse: "uint16_of_bytes be (uint16_bytes be x) = x"
  unfolding uint16_of_bytes_def uint16_bytes_def
  by (rule bit_word_eqI) (auto simp: bit_simps)

lemma length_uint16_bytes [simp]: "length (uint16_bytes be x) = 2"
  by (simp add: uint16_bytes_def)

lemma length_wire_crc [simp]: "length (wire_crc be c) = 2"
  by (simp add: wire_crc_def)

lemma rx_crc_wire: "load m off 2 = wire_crc be c \<Longrightarrow> rx_crc be m off = c"
  by (simp add: rx_crc_def wire_crc_def uint16_of_bytes_inverse LITTLE_TO_BIG_SHORT_twice)

lemma store_crc:
  "2 \<le> room \<Longrightarrow>
   snd (memscpy d off room (mem_of (uint16_bytes be (if \<not> be then LITTLE_TO_BIG_SHORT c else c))) 0 2)
     = store d off (wire_crc be c)"
  using load_mem_of [of "wire_crc be c"]
  by (cases be) (simp_all add: memscpy_def wire_crc_def)


lemma unat_sub_small: "unat k \<le> unat (x :: uint32) \<Longrightarrow> unat (x - k) = unat x - unat k"
  by (simp add: unat_sub word_le_nat_alt)

lemma fh_packet_encode_payload_ok:
  assumes id: "packet_id = PROTOCOL_PACKET \<or> packet_id = END_OF_TRANSFER_PACKET"
    and p: "p \<noteq> []" "load s 0 (length p) = p" "unat src_length = length p"
    and room: "length p + 3 \<le> unat dst_length"
  shows "\<exists>d. fh_packet_encode crc be packet_id (Some s) src_length (Some dst) dst_length =
               (src_length + 3, PACKET_SUCCESS, Some d) \<and>
             load d 0 (length p + 3) =
               packet_id_byte packet_id # p @ wire_crc be (crc (packet_id_byte packet_id # p))"
proof -
  let ?d1 = "dst(0 := packet_id_byte packet_id)"
  let ?d2 = "store ?d1 (Suc 0) p"
  let ?c = "crc (packet_id_byte packet_id # p)"
  let ?d3 = "store ?d2 (Suc (length p)) (wire_crc be ?c)"
  have nz: "src_length \<noteq> 0"
    using p by (auto simp: unat_eq_zero [symmetric] simp del: unat_eq_zero)
  have r1: "unat (dst_length - 1) = unat dst_length - 1"
    using room by (simp add: unat_sub_small)
  have r2: "\<not> unat (dst_length - 1) \<le> length p"
    using room r1 by linarith
  have copy: "snd (memscpy ?d1 (Suc 0) (unat dst_length - Suc 0) s 0 (length p)) = ?d2"
    using r2 r1 by (simp add: memscpy_def p)
  have small: "length p + 3 < 4294967296"
    using room unat_uint32_less [of dst_length] by linarith
  have u1: "unat (1 + src_length) = Suc (length p)"
    using small p by (simp add: unat_word_ariths)
  have l2: "load ?d2 0 (Suc (length p)) = packet_id_byte packet_id # p"
    by (simp add: load_Cons load_store_same store_apply_out)
  have l3: "load ?d3 0 (length p + 3) = packet_id_byte packet_id # p @ wire_crc be ?c"
  proof -
    have "load ?d3 0 (Suc (length p) + 2) = load ?d3 0 (Suc (length p)) @ load ?d3 (0 + Suc (length p)) 2"
      by (rule load_append)
    moreover have "load ?d3 0 (Suc (length p)) = load ?d2 0 (Suc (length p))"
      by (rule load_store_other) simp
    moreover have "load ?d3 (Suc (length p)) 2 = wire_crc be ?c"
      using load_store_same [of "wire_crc be ?c" 2 ?d2 "Suc (length p)"] by simp
    ultimately show ?thesis
      using l2 by (simp add: numeral_3_eq_3)
  qed
  have enc: "fh_packet_encode_payload crc be packet_id (Some s) src_length dst dst_length =
               (src_length + 3, PACKET_SUCCESS, Some ?d3)"
    using nz room
    by (simp add: fh_packet_encode_payload_def Let_def split_beta copy u1 l2 store_crc r1
          packet_id_size_def p)
  show ?thesis
    using id enc l3 by (auto simp: fh_packet_encode_def)
qed

lemma memscpy_fits:
  "src_size \<le> dst_size \<Longrightarrow>
   memscpy d doff dst_size s soff src_size = (src_size, store d doff (load s soff src_size))"
  by (simp add: memscpy_def)

lemma fh_packet_decode_payload_ok:
  assumes id: "packet_id = PROTOCOL_PACKET \<or> packet_id = END_OF_TRANSFER_PACKET"
    and wire: "load e 0 (length p + 3) =
                 packet_id_byte packet_id # p @ wire_crc be (crc (packet_id_byte packet_id # p))"
    and n: "unat n = length p + 3"
    and room: "length p \<le> unat dec_length"
  shows "fh_packet_decode crc be (Some e) n (Some out) dec_length =
           packet_decoded (n - 3) PACKET_SUCCESS (Some packet_id) (Some (store out 0 p))"
proof -
  let ?c = "crc (packet_id_byte packet_id # p)"
  have w: "load e 0 (Suc (length p) + 2) = (packet_id_byte packet_id # p) @ wire_crc be ?c"
    using wire by (simp add: numeral_3_eq_3)
  have h: "load e 0 (Suc (length p)) = packet_id_byte packet_id # p"
    and t: "load e (Suc (length p)) 2 = wire_crc be ?c"
    using load_split [OF w] by simp_all
  from h have e0: "e 0 = packet_id_byte packet_id" and body: "load e (Suc 0) (length p) = p"
    by (simp_all add: load_Cons)
  have nz: "n \<noteq> 0"
    using n by (auto simp: unat_eq_zero [symmetric] simp del: unat_eq_zero)
  have u: "unat (n - 2) = Suc (length p)" "unat (n - 3) = length p" "unat (n - 1) = length p + 2"
    using n by (simp_all add: unat_sub_small)
  have fit: "\<not> dec_length < n - 3"
    using room u by (simp add: word_less_nat_alt)
  have crc: "rx_crc be e (Suc (length p)) = ?c"
    using t by (rule rx_crc_wire)
  have other: "e 0 \<noteq> packet_id_byte ACK_PACKET" "e 0 \<noteq> packet_id_byte NAK_PACKET"
    "e 0 \<noteq> packet_id_byte VERSION_PACKET"
    using id e0 by auto
  have this_id: "(if e 0 = packet_id_byte PROTOCOL_PACKET then PROTOCOL_PACKET
                  else END_OF_TRANSFER_PACKET) = packet_id"
    "e 0 = packet_id_byte PROTOCOL_PACKET \<or> e 0 = packet_id_byte END_OF_TRANSFER_PACKET"
    using id e0 by auto
  have a: "n - 1 - 2 = n - 3"
    by simp
  show ?thesis
    unfolding fh_packet_decode_def
    using nz other this_id fit crc
    by (simp add: Let_def packet_id_size_def n u h body a memscpy_fits [OF room] split_beta
          del: packet_id_byte.simps)
qed

lemma fh_packet_encode_version_ok:
  assumes "5 \<le> unat dst_length"
  shows "\<exists>d. fh_packet_encode crc be VERSION_PACKET src src_length (Some dst) dst_length =
               (5, PACKET_SUCCESS, Some d) \<and>
             load d 0 5 = [0xAA, 1, 0] @ wire_crc be (crc [0xAA, 1, 0])"
proof -
  let ?d1 = "dst(0 := 0xAA, Suc 0 := 1, 2 := 0)"
  let ?d2 = "store ?d1 3 (wire_crc be (crc [0xAA, 1, 0]))"
  have l1: "load ?d1 0 3 = [0xAA, 1, 0]"
    by (simp add: numeral_3_eq_3 load_Cons numeral_2_eq_2)
  have r: "2 \<le> unat dst_length - 3"
    using assms by linarith
  have "load ?d2 0 (3 + 2) = load ?d2 0 3 @ load ?d2 (0 + 3) 2"
    by (rule load_append)
  moreover have "load ?d2 0 3 = load ?d1 0 3"
    by (rule load_store_other) simp
  moreover have "load ?d2 3 2 = wire_crc be (crc [0xAA, 1, 0])"
    by (rule load_store_same) simp
  ultimately have l2: "load ?d2 0 5 = [0xAA, 1, 0] @ wire_crc be (crc [0xAA, 1, 0])"
    using l1 by simp
  have "fh_packet_encode crc be VERSION_PACKET src src_length (Some dst) dst_length =
          (5, PACKET_SUCCESS, Some (store ?d1 (Suc (Suc (Suc 0))) (wire_crc be (crc [0xAA, 1, 0]))))"
    using assms r
    by (simp add: fh_packet_encode_def Let_def split_beta packet_id_size_def version_packet_size_def
          PACKET_LAYER_MAJOR_ID_def PACKET_LAYER_MINOR_ID_def l1 store_crc unat_sub_small)
  then have "fh_packet_encode crc be VERSION_PACKET src src_length (Some dst) dst_length =
          (5, PACKET_SUCCESS, Some ?d2)"
    by (simp add: numeral_3_eq_3)
  with l2 show ?thesis by blast
qed

lemma fh_packet_decode_version_ok:
  assumes wire: "load e 0 5 = [0xAA, 1, 0] @ wire_crc be (crc [0xAA, 1, 0])"
  shows "fh_packet_decode crc be (Some e) 5 (Some out) dec_length =
           packet_decoded 0 PACKET_SUCCESS (Some VERSION_PACKET) (Some out)"
proof -
  have w: "load e 0 (3 + 2) = [0xAA, 1, 0] @ wire_crc be (crc [0xAA, 1, 0])"
    using wire by simp
  have h: "load e 0 3 = [0xAA, 1, 0]" and t: "load e 3 2 = wire_crc be (crc [0xAA, 1, 0])"
    using load_split [OF w] by simp_all
  from h have e: "e 0 = 0xAA" "e (Suc 0) = 1" "e 2 = 0"
    by (simp_all add: numeral_3_eq_3 load_Cons numeral_2_eq_2)
  have "rx_crc be e 3 = crc [0xAA, 1, 0]"
    using t by (rule rx_crc_wire)
  then have crc: "rx_crc be e (Suc (Suc (Suc 0))) = crc [0xAA, 1, 0]"
    by (simp add: numeral_3_eq_3)
  show ?thesis
    unfolding fh_packet_decode_def
    using e crc
    by (simp add: Let_def packet_id_size_def version_packet_size_def h
          PACKET_LAYER_MAJOR_ID_def PACKET_LAYER_MINOR_ID_def)
qed

lemma fh_packet_encode_ready_ok:
  assumes "3 \<le> unat dst_length"
  shows "\<exists>d. fh_packet_encode crc be READY_TO_READ_PACKET src src_length (Some dst) dst_length =
               (3, PACKET_SUCCESS, Some d) \<and>
             load d 0 3 = [0x0F] @ wire_crc be (crc [0x0F])"
proof -
  let ?d1 = "dst(0 := 0x0F)"
  let ?d2 = "store ?d1 (Suc 0) (wire_crc be (crc [0x0F]))"
  have l1: "load ?d1 0 (Suc 0) = [0x0F]"
    by (simp add: load_Cons)
  have r: "2 \<le> unat dst_length - Suc 0"
    using assms by linarith
  have "load ?d2 0 (Suc 0 + 2) = load ?d2 0 (Suc 0) @ load ?d2 (0 + Suc 0) 2"
    by (rule load_append)
  moreover have "load ?d2 0 (Suc 0) = load ?d1 0 (Suc 0)"
    by (rule load_store_other) simp
  moreover have "load ?d2 (Suc 0) 2 = wire_crc be (crc [0x0F])"
    by (rule load_store_same) simp
  ultimately have l2: "load ?d2 0 3 = [0x0F] @ wire_crc be (crc [0x0F])"
    using l1 by (simp add: numeral_3_eq_3)
  have "fh_packet_encode crc be READY_TO_READ_PACKET src src_length (Some dst) dst_length =
          (3, PACKET_SUCCESS, Some ?d2)"
    using assms r
    by (simp add: fh_packet_encode_def Let_def split_beta packet_id_size_def l1 store_crc
          unat_sub_small)
  with l2 show ?thesis by blast
qed

lemma fh_packet_decode_ready_ok:
  assumes wire: "load e 0 3 = [0x0F] @ wire_crc be (crc [0x0F])"
  shows "fh_packet_decode crc be (Some e) 3 (Some out) dec_length =
           packet_decoded 0 PACKET_SUCCESS (Some READY_TO_READ_PACKET) (Some out)"
proof -
  have w: "load e 0 (Suc 0 + 2) = [0x0F] @ wire_crc be (crc [0x0F])"
    using wire by (simp add: numeral_3_eq_3)
  have h: "load e 0 (Suc 0) = [0x0F]" and t: "load e (Suc 0) 2 = wire_crc be (crc [0x0F])"
    using load_split [OF w] by simp_all
  from h have e: "e 0 = 0x0F"
    by (simp add: load_Cons)
  have crc: "rx_crc be e (Suc 0) = crc [0x0F]"
    using t by (rule rx_crc_wire)
  show ?thesis
    unfolding fh_packet_decode_def
    using e crc
    by (simp add: Let_def packet_id_size_def h)
qed


text \<open>
  C2.  For each of the six identifiers and every payload valid for it, with a destination
  for the encoder that holds the payload and five more bytes and a destination for the
  decoder that holds the payload: \<open>fh_packet_encode\<close> succeeds, and \<open>fh_packet_decode\<close>
  applied to the buffer and length it produced succeeds, reports the same identifier and
  the payload's length, and leaves the payload at the start of its destination.  This
  holds whatever function \<open>fh_crc_calculate_crc16\<close> is and on hosts of either byte order.
\<close>

theorem fh_packet_round_trip:
  assumes valid: "valid_payload packet_id p"
    and src: "p = [] \<or> src = Some s" "load s 0 (length p) = p" "unat src_length = length p"
    and room: "length p + 5 \<le> unat dst_length" "length p \<le> unat dec_length"
  shows "\<exists>n d r d'.
           fh_packet_encode crc be packet_id src src_length (Some dst) dst_length
             = (n, PACKET_SUCCESS, Some d) \<and>
           fh_packet_decode crc be (Some d) n (Some out) dec_length = r \<and>
           pkt_error r = PACKET_SUCCESS \<and> pkt_id r = Some packet_id \<and>
           unat (pkt_return r) = length p \<and>
           pkt_dst r = Some d' \<and> load d' 0 (length p) = p"
proof (cases packet_id)
  case PROTOCOL_PACKET
  with valid src have s: "src = Some s" "p \<noteq> []"
    by (auto simp: valid_payload_def)
  have i: "packet_id = PROTOCOL_PACKET \<or> packet_id = END_OF_TRANSFER_PACKET"
    using PROTOCOL_PACKET by simp
  have r: "length p + 3 \<le> unat dst_length"
    using room by simp
  obtain d where d: "fh_packet_encode crc be packet_id (Some s) src_length (Some dst) dst_length =
               (src_length + 3, PACKET_SUCCESS, Some d)"
      "load d 0 (length p + 3) =
               packet_id_byte packet_id # p @ wire_crc be (crc (packet_id_byte packet_id # p))"
    using fh_packet_encode_payload_ok [OF i s(2) src(2,3) r] by blast
  have n: "unat (src_length + 3) = length p + 3"
    using r src(3) unat_uint32_less [of dst_length] by (simp add: unat_word_ariths)
  show ?thesis
    using d(1) fh_packet_decode_payload_ok [where crc = crc and p = p,
        OF i d(2) n room(2)] src(3) s(1)
    by (simp add: packet_decoded_def load_store_same)
next
  case END_OF_TRANSFER_PACKET
  with valid src have s: "src = Some s" "p \<noteq> []"
    by (auto simp: valid_payload_def)
  have i: "packet_id = PROTOCOL_PACKET \<or> packet_id = END_OF_TRANSFER_PACKET"
    using END_OF_TRANSFER_PACKET by simp
  have r: "length p + 3 \<le> unat dst_length"
    using room by simp
  obtain d where d: "fh_packet_encode crc be packet_id (Some s) src_length (Some dst) dst_length =
               (src_length + 3, PACKET_SUCCESS, Some d)"
      "load d 0 (length p + 3) =
               packet_id_byte packet_id # p @ wire_crc be (crc (packet_id_byte packet_id # p))"
    using fh_packet_encode_payload_ok [OF i s(2) src(2,3) r] by blast
  have n: "unat (src_length + 3) = length p + 3"
    using r src(3) unat_uint32_less [of dst_length] by (simp add: unat_word_ariths)
  show ?thesis
    using d(1) fh_packet_decode_payload_ok [where crc = crc and p = p,
        OF i d(2) n room(2)] src(3) s(1)
    by (simp add: packet_decoded_def load_store_same)
next
  case ACK_PACKET
  with valid have p: "p = []"
    by (simp add: valid_payload_def)
  have enc: "fh_packet_encode crc be ACK_PACKET src src_length (Some dst) dst_length =
               (1, PACKET_SUCCESS, Some (dst(0 := 0x06)))"
    by (simp add: fh_packet_encode_def packet_id_size_def)
  have dec: "fh_packet_decode crc be (Some (dst(0 := 0x06))) 1 (Some out) dec_length =
               packet_decoded 0 PACKET_SUCCESS (Some ACK_PACKET) (Some out)"
    by (simp add: fh_packet_decode_def)
  show ?thesis
    using enc dec p ACK_PACKET by (simp add: packet_decoded_def)
next
  case NAK_PACKET
  with valid have p: "p = []"
    by (simp add: valid_payload_def)
  have enc: "fh_packet_encode crc be NAK_PACKET src src_length (Some dst) dst_length =
               (1, PACKET_SUCCESS, Some (dst(0 := 0x09)))"
    by (simp add: fh_packet_encode_def packet_id_size_def)
  have dec: "fh_packet_decode crc be (Some (dst(0 := 0x09))) 1 (Some out) dec_length =
               packet_decoded 0 PACKET_SUCCESS (Some NAK_PACKET) (Some out)"
    by (simp add: fh_packet_decode_def)
  show ?thesis
    using enc dec p NAK_PACKET by (simp add: packet_decoded_def)
next
  case VERSION_PACKET
  with valid have p: "p = []"
    by (simp add: valid_payload_def)
  have r: "5 \<le> unat dst_length"
    using room by simp
  obtain d where d: "fh_packet_encode crc be VERSION_PACKET src src_length (Some dst) dst_length =
               (5, PACKET_SUCCESS, Some d)"
      "load d 0 5 = [0xAA, 1, 0] @ wire_crc be (crc [0xAA, 1, 0])"
    using fh_packet_encode_version_ok [OF r] by blast
  show ?thesis
    using d(1) fh_packet_decode_version_ok [where crc = crc, OF d(2)] p
      VERSION_PACKET
    by (simp add: packet_decoded_def)
next
  case READY_TO_READ_PACKET
  with valid have p: "p = []"
    by (simp add: valid_payload_def)
  have r: "3 \<le> unat dst_length"
    using room by simp
  obtain d where d: "fh_packet_encode crc be READY_TO_READ_PACKET src src_length (Some dst) dst_length =
               (3, PACKET_SUCCESS, Some d)"
      "load d 0 3 = [0x0F] @ wire_crc be (crc [0x0F])"
    using fh_packet_encode_ready_ok [OF r] by blast
  show ?thesis
    using d(1) fh_packet_decode_ready_ok [where crc = crc, OF d(2)] p
      READY_TO_READ_PACKET
    by (simp add: packet_decoded_def)
qed

theorem fh_packet_round_trip_witness:
  "valid_payload END_OF_TRANSFER_PACKET [0x11, 0x00, 0x33] \<and>
   (\<exists>n d r d'.
      fh_packet_encode (\<lambda>bs. of_nat (length bs)) False END_OF_TRANSFER_PACKET
          (Some (mem_of [0x11, 0x00, 0x33])) 3 (Some (\<lambda>i. 0)) 4096
        = (n, PACKET_SUCCESS, Some d) \<and>
      fh_packet_decode (\<lambda>bs. of_nat (length bs)) False (Some d) n (Some (\<lambda>i. 0)) 4096 = r \<and>
      pkt_error r = PACKET_SUCCESS \<and> pkt_id r = Some END_OF_TRANSFER_PACKET \<and>
      unat (pkt_return r) = 3 \<and>
      pkt_dst r = Some d' \<and> load d' 0 3 = [0x11, 0x00, 0x33])"
proof -
  let ?p = "[0x11, 0x00, 0x33] :: byte list"
  have v: "valid_payload END_OF_TRANSFER_PACKET ?p"
    by (simp add: valid_payload_def)
  have s: "?p = [] \<or> Some (mem_of ?p) = Some (mem_of ?p)"
    by simp
  have l: "load (mem_of ?p) 0 (length ?p) = ?p"
    by (rule load_mem_of)
  have u: "unat (3 :: uint32) = length ?p"
    by simp
  have r: "length ?p + 5 \<le> unat (4096 :: uint32)" "length ?p \<le> unat (4096 :: uint32)"
    by simp_all
  show ?thesis
    using v fh_packet_round_trip [OF v s l u r, where crc = "\<lambda>bs. of_nat (length bs)"
        and be = False and dst = "\<lambda>i. 0" and out = "\<lambda>i. 0"]
    by (simp add: numeral_3_eq_3)
qed

section \<open>The XML reassembler: delivery of a response envelope\<close>

lemma match_chars_bound: "snd (match_chars xml offset cs) \<le> offset + length cs"
proof (induction cs arbitrary: offset)
  case Nil
  show ?case by simp
next
  case (Cons c cs)
  show ?case
    using Cons.IH [of "offset + 1"] by simp
qed

lemma find_data_close_bound: "find_data_close xml last_offset offset \<le> last_offset + 7"
proof (induction xml last_offset offset rule: find_data_close.induct)
  case (1 xml last_offset offset)
  show ?case
  proof (cases "offset \<le> last_offset")
    case False
    then show ?thesis
      by (subst find_data_close.simps) simp
  next
    case True
    show ?thesis
    proof (cases "fst (match_chars xml offset ''</data>'')")
      case True
      have "snd (match_chars xml offset ''</data>'') \<le> offset + length ''</data>''"
        by (rule match_chars_bound)
      with True \<open>offset \<le> last_offset\<close> show ?thesis
        by (subst find_data_close.simps) (simp add: Let_def)
    next
      case False
      with True "1.IH" [OF True refl] show ?thesis
        by (subst find_data_close.simps) (simp add: Let_def)
    qed
  qed
qed

lemma response_xml_parse_bound: "xml_ret (response_xml_parse xml xml_size) \<le> xml_size"
proof (cases "xml_size < 12")
  case True
  then show ?thesis
    by (simp add: response_xml_parse_def)
next
  case False
  have "find_data_close xml (xml_size - 7) offset \<le> xml_size" for offset
    using find_data_close_bound [of xml "xml_size - 7" offset] False by simp
  with False show ?thesis
    by (simp add: response_xml_parse_def Let_def split: option.splits)
qed

lemma take_load: "k \<le> n \<Longrightarrow> take k (load m off n) = load m off k"
  by (simp add: list_eq_iff_nth_eq)

lemma response_is_no_log:
  assumes "load buf command 8 = ''response''"
  shows "load buf command 3 \<noteq> ''log''"
proof -
  have "load buf command 3 = take 3 (load buf command 8)"
    by (simp add: take_load)
  with assms show ?thesis by simp
qed

lemma memsmove_fits:
  "src_size \<le> dst_size \<Longrightarrow>
   memsmove d doff dst_size s soff src_size = (src_size, store d doff (load s soff src_size))"
  by (simp add: memsmove_def)

lemma shift_fh_rx_buffer_left_bytes:
  assumes "bytes \<le> fh_rx_buffer_bytes st" and "fh_rx_buffer_bytes st \<le> fh_rx_buffer_size"
  shows "fh_rx_buffer_bytes (shift_fh_rx_buffer_left bytes st) = fh_rx_buffer_bytes st - bytes"
    and "load (fh_rx_buffer (shift_fh_rx_buffer_left bytes st)) 0 (fh_rx_buffer_bytes st - bytes)
           = load (fh_rx_buffer st) bytes (fh_rx_buffer_bytes st - bytes)"
proof -
  let ?n = "fh_rx_buffer_bytes st"
  have small: "?n < 2 ^ 64"
    using assms(2) by (simp add: fh_rx_buffer_size_def)
  have d: "?n - bytes < 2 ^ 64"
    using small by (rule less_imp_diff_less)
  have "?n + 2 ^ 64 - bytes = (?n - bytes) + 1 * 2 ^ 64"
    using assms(1) by simp
  then have "(?n + 2 ^ 64 - bytes) mod 2 ^ 64 = ((?n - bytes) + 1 * 2 ^ 64) mod 2 ^ 64"
    by (rule arg_cong)
  also have "\<dots> = (?n - bytes) mod 2 ^ 64"
    by (rule mod_mult_self1)
  also have "\<dots> = ?n - bytes"
    using d by (rule mod_less)
  finally have r: "(?n + 2 ^ 64 - bytes) mod 2 ^ 64 = ?n - bytes" .
  have f: "?n - bytes \<le> fh_rx_buffer_size"
    using assms(2) by simp
  show "fh_rx_buffer_bytes (shift_fh_rx_buffer_left bytes st) = ?n - bytes"
    unfolding shift_fh_rx_buffer_left_def r by (simp add: Let_def)
  have m: "snd (memsmove (fh_rx_buffer st) 0 fh_rx_buffer_size (fh_rx_buffer st) bytes (?n - bytes))
             = store (fh_rx_buffer st) 0 (load (fh_rx_buffer st) bytes (?n - bytes))"
    by (simp add: memsmove_fits [OF f])
  have "load (memset (store (fh_rx_buffer st) 0 (load (fh_rx_buffer st) bytes (?n - bytes)))
                 (?n - bytes) (CHR 0x00) bytes) 0 (?n - bytes)
          = load (fh_rx_buffer st) bytes (?n - bytes)"
    by (simp add: load_eq_iff memset_def store_def)
  then show "load (fh_rx_buffer (shift_fh_rx_buffer_left bytes st)) 0 (?n - bytes)
               = load (fh_rx_buffer st) bytes (?n - bytes)"
    unfolding shift_fh_rx_buffer_left_def r by (simp add: Let_def m)
qed

text \<open>
  C8.  Let the scratch buffer hold at most its 4096 bytes, let \<open>response_xml_parse\<close> on it
  have recognised an envelope (a non-zero size \<open>xml_size\<close>) and let the tag it points to
  begin with \<open>response\<close>.  Then the pass returns from \<open>fh_rx_blocking_response_xml\<close>.  If the
  caller's buffer holds \<open>xml_size\<close> bytes or more, the result is \<open>SUCCESS\<close>, the caller's
  buffer starts with all the \<open>xml_size\<close> bytes of the envelope, \<open>*bytes_read\<close> is
  \<open>xml_size\<close>, and the scratch buffer has been shifted left by \<open>xml_size\<close>: it holds the
  bytes that followed the envelope and is shorter by \<open>xml_size\<close>.  If the caller's buffer is
  smaller, the result is \<open>INVALID_PARAMETER\<close>, \<open>*bytes_read\<close> stays 0 and the scratch
  buffer is untouched (the caller's buffer has by then been filled with the first \<open>sz\<close>
  bytes of the envelope).
\<close>

theorem fh_rx_blocking_response_xml_response:
  assumes parsed: "xml_ret (response_xml_parse (fh_rx_buffer st) (fh_rx_buffer_bytes st)) = xml_size"
      "xml_tag (response_xml_parse (fh_rx_buffer st) (fh_rx_buffer_bytes st)) = Some command"
      "xml_value (response_xml_parse (fh_rx_buffer st) (fh_rx_buffer_bytes st)) = val"
    and found: "xml_size \<noteq> 0"
    and tag: "load (fh_rx_buffer st) command 8 = ''response''"
    and scratch: "fh_rx_buffer_bytes st \<le> fh_rx_buffer_size"
  shows "fh_rx_blocking_response_xml_envelope data sz st xml_size command val =
           (if sz < xml_size
            then (Rx_return INVALID_PARAMETER, store data 0 (load (fh_rx_buffer st) 0 sz), 0, st)
            else (Rx_return SUCCESS, store data 0 (load (fh_rx_buffer st) 0 xml_size), xml_size,
                  shift_fh_rx_buffer_left xml_size st)) \<and>
         load (store data 0 (load (fh_rx_buffer st) 0 xml_size)) 0 xml_size
           = load (fh_rx_buffer st) 0 xml_size \<and>
         xml_size \<le> fh_rx_buffer_bytes st \<and>
         fh_rx_buffer_bytes (shift_fh_rx_buffer_left xml_size st)
           = fh_rx_buffer_bytes st - xml_size \<and>
         load (fh_rx_buffer (shift_fh_rx_buffer_left xml_size st)) 0
              (fh_rx_buffer_bytes st - xml_size)
           = load (fh_rx_buffer st) xml_size (fh_rx_buffer_bytes st - xml_size)"
proof -
  have le: "xml_size \<le> fh_rx_buffer_bytes st"
    using response_xml_parse_bound [of "fh_rx_buffer st" "fh_rx_buffer_bytes st"] parsed(1)
    by simp
  have "fh_rx_blocking_response_xml_envelope data sz st xml_size command val =
           (if sz < xml_size
            then (Rx_return INVALID_PARAMETER, store data 0 (load (fh_rx_buffer st) 0 sz), 0, st)
            else (Rx_return SUCCESS, store data 0 (load (fh_rx_buffer st) 0 xml_size), xml_size,
                  shift_fh_rx_buffer_left xml_size st))"
    using response_is_no_log [OF tag] tag
    by (simp add: fh_rx_blocking_response_xml_envelope_def memscpy_def Let_def)
  then show ?thesis
    using le shift_fh_rx_buffer_left_bytes [OF le scratch]
    by (simp add: load_store_same)
qed

theorem fh_rx_blocking_response_xml_response_witness:
  "response_xml_parse (store (\<lambda>i. CHR 0x00) 0 ''<?xml ?><data><response /></data><?xml'') 38
     = \<lparr>xml_ret = 33, xml_tag = Some 15, xml_value = None\<rparr> \<and>
   fh_rx_blocking_response_xml_envelope (\<lambda>i. CHR ''x'') 4096
       \<lparr>fh_rx_buffer = store (\<lambda>i. CHR 0x00) 0 ''<?xml ?><data><response /></data><?xml'',
        fh_rx_buffer_bytes = 38\<rparr> 33 15 None
     = (Rx_return SUCCESS,
        store (\<lambda>i. CHR ''x'') 0
          (load (store (\<lambda>i. CHR 0x00) 0 ''<?xml ?><data><response /></data><?xml'') 0 33),
        33,
        shift_fh_rx_buffer_left 33
          \<lparr>fh_rx_buffer = store (\<lambda>i. CHR 0x00) 0 ''<?xml ?><data><response /></data><?xml'',
           fh_rx_buffer_bytes = 38\<rparr>) \<and>
   fh_rx_buffer_bytes (shift_fh_rx_buffer_left 33
       \<lparr>fh_rx_buffer = store (\<lambda>i. CHR 0x00) 0 ''<?xml ?><data><response /></data><?xml'',
        fh_rx_buffer_bytes = 38\<rparr>) = 5 \<and>
   fst (fh_rx_blocking_response_xml_envelope (\<lambda>i. CHR ''x'') 10
       \<lparr>fh_rx_buffer = store (\<lambda>i. CHR 0x00) 0 ''<?xml ?><data><response /></data><?xml'',
        fh_rx_buffer_bytes = 38\<rparr> 33 15 None)
     = Rx_return INVALID_PARAMETER"
proof -
  let ?buf = "store (\<lambda>i. CHR 0x00) 0 ''<?xml ?><data><response /></data><?xml''"
  let ?st = "\<lparr>fh_rx_buffer = ?buf, fh_rx_buffer_bytes = 38\<rparr>"
  have p: "response_xml_parse ?buf 38 = \<lparr>xml_ret = 33, xml_tag = Some 15, xml_value = None\<rparr>"
    by code_simp
  have h1: "xml_ret (response_xml_parse (fh_rx_buffer ?st) (fh_rx_buffer_bytes ?st)) = 33"
    and h2: "xml_tag (response_xml_parse (fh_rx_buffer ?st) (fh_rx_buffer_bytes ?st)) = Some 15"
    and h3: "xml_value (response_xml_parse (fh_rx_buffer ?st) (fh_rx_buffer_bytes ?st)) = None"
    by (simp_all add: p)
  have h4: "(33 :: nat) \<noteq> 0"
    by simp
  have h5: "load (fh_rx_buffer ?st) 15 8 = ''response''"
    by code_simp
  have h6: "fh_rx_buffer_bytes ?st \<le> fh_rx_buffer_size"
    by (simp add: fh_rx_buffer_size_def)
  show ?thesis
    using p fh_rx_blocking_response_xml_response [OF h1 h2 h3 h4 h5 h6, of "\<lambda>i. CHR ''x''" 4096]
      fh_rx_blocking_response_xml_response [OF h1 h2 h3 h4 h5 h6, of "\<lambda>i. CHR ''x''" 10]
    by simp
qed

section \<open>COBS: the declared source length\<close>

text \<open>
  C6.  A source of declared length 3 holding \<open>05 11 22\<close>, followed in memory by
  \<open>33 44 00\<close>: the code byte announces a block that ends at offset 4, past the declared
  length, and there is no zero byte within the declared length.  \<open>fh_cobs_unstuff_bytes\<close>
  does not fail with \<open>COBS_ERROR_INVALID_STUFFING\<close>: it reads the source up to offset 5
  and returns the four bytes \<open>11 22 33 44\<close> with \<open>COBS_SUCCESS\<close>.  After the test for zero
  the function never looks at \<open>src_length\<close>.
\<close>

theorem fh_cobs_unstuff_bytes_reads_past_src_length:
  "fh_cobs_unstuff_bytes (Some (mem_of [0x05, 0x11, 0x22, 0x33, 0x44, 0x00])) 3 (Some d) 4096
     = \<lparr>cobs_return = 4, cobs_error = COBS_SUCCESS,
        cobs_dst = Some (d(0 := 0x11, 1 := 0x22, 2 := 0x33, 3 := 0x44)),
        cobs_written = 4, cobs_read = 6\<rparr>"
  by (simp add: fh_cobs_unstuff_bytes_def fh_cobs_unstuff_loop.simps mem_of_def store_def
      Let_def word_le_nat_alt) (simp only: numeral_2_eq_2 numeral_3_eq_3)

section \<open>COBS: the round trip\<close>

subsection \<open>Blocks\<close>

lemma cobs_blocks_not_Nil [simp]: "cobs_blocks blk s \<noteq> []"
  by (induction blk s rule: cobs_blocks.induct) auto

lemma cobs_blocks_full:
  "length blk = 254 \<Longrightarrow> cobs_blocks blk (d # ds) = blk # cobs_blocks [] (d # ds)"
  by simp

lemma cobs_wire_not_Nil [simp]: "cobs_wire bs \<noteq> []"
  by (cases bs) simp_all

lemma length_cobs_wire_blocks:
  "length blk + length s + 2 \<le> length (cobs_wire (cobs_blocks blk s))"
  by (induction blk s rule: cobs_blocks.induct) (auto split: if_splits)

lemma cobs_blocks_length:
  "length blk \<le> 254 \<Longrightarrow> b \<in> set (cobs_blocks blk s) \<Longrightarrow> length b \<le> 254"
  by (induction blk s rule: cobs_blocks.induct) (auto split: if_splits)

lemma cobs_blocks_nonzero:
  "0 \<notin> set blk \<Longrightarrow> b \<in> set (cobs_blocks blk s) \<Longrightarrow> 0 \<notin> set b"
  by (induction blk s rule: cobs_blocks.induct) (auto split: if_splits)

lemma cobs_unblocks_Cons:
  "bs \<noteq> [] \<Longrightarrow>
   cobs_unblocks (b # bs) = b @ (if length b = 254 then [] else [0]) @ cobs_unblocks bs"
  by (cases bs) simp_all

lemma cobs_unblocks_blocks:
  "length blk \<le> 254 \<Longrightarrow> cobs_unblocks (cobs_blocks blk s) = blk @ s"
  by (induction blk s rule: cobs_blocks.induct) (auto simp: cobs_unblocks_Cons)

lemma unat_code_byte: "n \<le> 254 \<Longrightarrow> unat (of_nat (Suc n) :: byte) = Suc n"
  by (simp add: unsigned_of_nat take_bit_nat_eq_self del: of_nat_Suc)

lemma code_byte_nonzero:
  assumes "n \<le> 254"
  shows "(of_nat (Suc n) :: byte) \<noteq> 0"
proof
  assume "(of_nat (Suc n) :: byte) = 0"
  then have "unat (of_nat (Suc n) :: byte) = 0"
    by (simp only: unsigned_0)
  with unat_code_byte [OF assms] show False
    by simp
qed

lemma cobs_wire_zero:
  "(\<And>b. b \<in> set bs \<Longrightarrow> length b \<le> 254 \<and> 0 \<notin> set b) \<Longrightarrow>
   0 \<notin> set (butlast (cobs_wire bs)) \<and> last (cobs_wire bs) = 0"
proof (induction bs)
  case Nil
  show ?case by simp
next
  case (Cons b bs)
  have b: "length b \<le> 254" "0 \<notin> set b"
    using Cons.prems [of b] by simp_all
  have rest: "0 \<notin> set (butlast (cobs_wire bs)) \<and> last (cobs_wire bs) = 0"
    by (rule Cons.IH) (simp add: Cons.prems)
  have "butlast (cobs_wire (b # bs)) = of_nat (Suc (length b)) # b @ butlast (cobs_wire bs)"
    by (simp add: butlast_append)
  then show ?case
    using b rest code_byte_nonzero [of "length b"] by auto
qed

subsection \<open>The stuffing loop, one pass at a time\<close>

lemma stuff_loop_done:
  "\<not> index < n \<Longrightarrow>
   fh_cobs_stuff_loop src n dl (index, ev, evp, dvp, sl, dst, wr) =
     \<lparr>cobs_return = sl, cobs_error = COBS_SUCCESS, cobs_dst = Some dst,
      cobs_written = wr, cobs_read = unat index\<rparr>"
  by (subst fh_cobs_stuff_loop.simps) simp

lemma stuff_loop_flush:
  assumes "index < n" "\<not> dl \<le> sl + 1"
  shows "fh_cobs_stuff_loop src n dl (index, 0xFF, evp, dvp, sl, dst, wr) =
         fh_cobs_stuff_loop src n dl
           (index, 0x01, dvp, Suc dvp, sl + 1, dst(evp := 0xFF), max wr (Suc evp))"
  using assms by (subst fh_cobs_stuff_loop.simps) (auto simp: fh_cobs_stuff_body_def Let_def)

lemma stuff_loop_data:
  assumes "index < n" "index + 1 \<noteq> n" "ev \<noteq> 0xFF" "src (unat index) \<noteq> 0"
    "\<not> dl \<le> sl + 1"
  shows "fh_cobs_stuff_loop src n dl (index, ev, evp, dvp, sl, dst, wr) =
         fh_cobs_stuff_loop src n dl
           (index + 1, ev + 1, evp, Suc dvp, sl + 1, dst(dvp := src (unat index)),
            max wr (Suc dvp))"
  using assms by (subst fh_cobs_stuff_loop.simps) (simp add: fh_cobs_stuff_body_def Let_def)

lemma stuff_loop_data_last:
  assumes "index < n" "index + 1 = n" "ev \<noteq> 0xFF" "src (unat index) \<noteq> 0"
  shows "fh_cobs_stuff_loop src n dl (index, ev, evp, dvp, sl, dst, wr) =
         \<lparr>cobs_return = sl + 2, cobs_error = COBS_SUCCESS,
          cobs_dst = Some (dst(dvp := src (unat index), evp := ev + 1, Suc dvp := 0)),
          cobs_written = max (max wr (Suc dvp)) (Suc (Suc dvp)), cobs_read = unat n\<rparr>"
  using assms
  by (subst fh_cobs_stuff_loop.simps) (simp add: fh_cobs_stuff_body_def Let_def stuff_loop_done)

lemma stuff_loop_zero:
  assumes "index < n" "index + 1 \<noteq> n" "ev \<noteq> 0xFF" "src (unat index) = 0"
    "\<not> dl \<le> sl + 1"
  shows "fh_cobs_stuff_loop src n dl (index, ev, evp, dvp, sl, dst, wr) =
         fh_cobs_stuff_loop src n dl
           (index + 1, 0x01, dvp, Suc dvp, sl + 1, dst(evp := ev), max wr (Suc evp))"
  using assms by (subst fh_cobs_stuff_loop.simps) (simp add: fh_cobs_stuff_body_def Let_def)

lemma stuff_loop_zero_last:
  assumes "index < n" "index + 1 = n" "ev \<noteq> 0xFF" "src (unat index) = 0"
  shows "fh_cobs_stuff_loop src n dl (index, ev, evp, dvp, sl, dst, wr) =
         \<lparr>cobs_return = sl + 2, cobs_error = COBS_SUCCESS,
          cobs_dst = Some (dst(evp := ev, dvp := 0x01, Suc dvp := 0)),
          cobs_written = max (max wr (Suc evp)) (Suc (Suc dvp)), cobs_read = unat n\<rparr>"
  using assms
  by (subst fh_cobs_stuff_loop.simps) (simp add: fh_cobs_stuff_body_def Let_def stuff_loop_done)

subsection \<open>The stuffing loop writes the blocks of its input\<close>

lemma unat_uint32_Suc: "unat (x :: uint32) < 4294967295 \<Longrightarrow> unat (x + 1) = Suc (unat x)"
  by (simp add: unat_word_ariths)

lemma word_of_unat: "unat (w :: 'a::len word) = k \<Longrightarrow> w = of_nat k"
  by auto

lemma load_below: "(\<And>j. j < b \<Longrightarrow> m' j = m j) \<Longrightarrow> off + k \<le> b \<Longrightarrow> load m' off k = load m off k"
  by (rule load_cong) simp

lemma load_close_block:
  assumes c: "m evp = c"
    and blk: "load m (Suc evp) k = blk"
    and below: "\<And>j. j < Suc (evp + k) \<Longrightarrow> m' j = m j"
    and rest: "load m' (Suc (evp + k)) w = W1"
  shows "load m' evp (Suc (k + w)) = c # blk @ W1"
proof -
  have "load m' evp (Suc k + w) = load m' evp (Suc k) @ load m' (evp + Suc k) w"
    by (rule load_append)
  moreover have "load m' evp (Suc k) = load m evp (Suc k)"
    by (rule load_below [where b = "Suc (evp + k)"]) (simp_all add: below)
  moreover have "load m evp (Suc k) = c # blk"
    by (simp add: load_Cons c blk)
  ultimately show ?thesis
    using rest by simp
qed

lemma cobs_blocks_data:
  "length blk \<noteq> 254 \<Longrightarrow> d \<noteq> 0 \<Longrightarrow> cobs_blocks blk (d # ds) = cobs_blocks (blk @ [d]) ds"
  by simp

lemma cobs_blocks_zero:
  "length blk \<noteq> 254 \<Longrightarrow> cobs_blocks blk (0 # ds) = blk # cobs_blocks [] ds"
  by simp

declare cobs_blocks.simps(2) [simp del]

lemma stuff_loop_wire:
  fixes index n dl sl :: uint32 and ev :: byte
  assumes "rest \<noteq> []"
    and "unat index + length rest = unat n"
    and "load src (unat index) (length rest) = rest"
    and "unat ev = Suc (length blk)"
    and "dvp = Suc (evp + length blk)"
    and "unat sl = dvp"
    and "load dst (Suc evp) (length blk) = blk"
    and "evp + length (cobs_wire (cobs_blocks blk rest)) \<le> Suc (unat dl)"
    and "evp + length (cobs_wire (cobs_blocks blk rest)) < 4294967296"
  shows "\<exists>dst'. fh_cobs_stuff_loop src n dl (index, ev, evp, dvp, sl, dst, wr) =
            \<lparr>cobs_return = of_nat (evp + length (cobs_wire (cobs_blocks blk rest))),
             cobs_error = COBS_SUCCESS, cobs_dst = Some dst',
             cobs_written = max wr (evp + length (cobs_wire (cobs_blocks blk rest))),
             cobs_read = unat n\<rparr>
          \<and> load dst' evp (length (cobs_wire (cobs_blocks blk rest))) = cobs_wire (cobs_blocks blk rest)
          \<and> (\<forall>j<evp. dst' j = dst j)"
  using assms
proof (induction "2 * length rest + (if length blk = 254 then 1 else 0)"
    arbitrary: rest blk index ev evp dvp sl dst wr rule: less_induct)
  case less
  note IH = less.hyps
  note rest = less.prems(1-3) and ev = less.prems(4) and dvp = less.prems(5)
    and sl = less.prems(6) and blk = less.prems(7) and cap = less.prems(8,9)
  let ?W = "cobs_wire (cobs_blocks blk rest)"
  obtain d rest' where r: "rest = d # rest'"
    using rest(1) by (cases rest) auto
  have d: "src (unat index) = d" and rest': "load src (Suc (unat index)) (length rest') = rest'"
    using rest(3) by (simp_all add: r load_Cons)
  have lt: "index < n"
    using rest(2) r by (simp add: word_less_nat_alt)
  have u1: "unat (index + 1) = Suc (unat index)"
    using lt by (rule unat_less_Suc)
  have "unat index + Suc (length rest') = unat n"
    using rest(2) by (simp add: r)
  then have "unat (index + 1) = unat n \<longleftrightarrow> length rest' = 0"
    unfolding u1 by linarith
  then have last: "index + 1 = n \<longleftrightarrow> rest' = []"
    by (simp add: word_unat_eq_iff)
  have len: "length blk \<le> 254"
    using ev unat_byte_less [of ev] by simp
  have ff: "ev = 0xFF \<longleftrightarrow> length blk = 254"
    using ev by (auto simp: word_unat_eq_iff)
  have evw: "ev = of_nat (Suc (length blk))"
    using ev by (rule word_of_unat)
  have slw: "sl = of_nat dvp"
    using sl by (rule word_of_unat)
  have W_ge: "length blk + length rest + 2 \<le> length ?W"
    by (rule length_cobs_wire_blocks)
  have sl1: "unat (sl + 1) = Suc dvp"
    using unat_uint32_Suc [of sl] sl dvp W_ge cap(2) by simp
  have room: "\<not> dl \<le> sl + 1" if "rest' \<noteq> [] \<or> length blk = 254"
  proof -
    have "dvp + 3 \<le> evp + length ?W"
    proof (cases "length blk = 254")
      case True
      have "length ([] :: byte list) + length rest + 2 \<le> length (cobs_wire (cobs_blocks [] rest))"
        by (rule length_cobs_wire_blocks)
      then show ?thesis
        using True dvp cobs_blocks_full [of blk d rest'] by (simp add: r)
    next
      case False
      with that have "2 \<le> length rest"
        by (cases rest') (simp_all add: r)
      with W_ge dvp show ?thesis
        by simp
    qed
    then show ?thesis
      using cap(1) sl1 by (simp add: word_le_nat_alt)
  qed
  have Suc_dvp: "Suc dvp \<le> evp + length ?W" and Suc_evp: "Suc evp \<le> evp + length ?W"
    using W_ge dvp by simp_all
  have close: "\<exists>dst'. fh_cobs_stuff_loop src n dl
            (index1, 0x01, dvp, Suc dvp, sl + 1, dst(evp := ev), max wr (Suc evp)) =
            \<lparr>cobs_return = of_nat (evp + length ?W),
             cobs_error = COBS_SUCCESS, cobs_dst = Some dst',
             cobs_written = max wr (evp + length ?W),
             cobs_read = unat n\<rparr>
          \<and> load dst' evp (length ?W) = ?W
          \<and> (\<forall>j<evp. dst' j = dst j)"
    if r1: "rest1 \<noteq> []" "unat index1 + length rest1 = unat n"
      "load src (unat index1) (length rest1) = rest1"
      and W1: "cobs_blocks blk rest = blk # cobs_blocks [] rest1"
      and less1: "2 * length rest1 < 2 * length rest + (if length blk = 254 then 1 else 0)"
    for index1 rest1
  proof -
    let ?W1 = "cobs_wire (cobs_blocks [] rest1)"
    let ?dst1 = "dst(evp := ev)"
    have W: "?W = ev # blk @ ?W1"
      by (simp add: W1 evw del: of_nat_Suc)
    have lenW: "evp + length ?W = dvp + length ?W1"
      using dvp by (simp add: W)
    have "\<exists>dst'. fh_cobs_stuff_loop src n dl
            (index1, 0x01, dvp, Suc dvp, sl + 1, ?dst1, max wr (Suc evp)) =
            \<lparr>cobs_return = of_nat (dvp + length ?W1),
             cobs_error = COBS_SUCCESS, cobs_dst = Some dst',
             cobs_written = max (max wr (Suc evp)) (dvp + length ?W1),
             cobs_read = unat n\<rparr>
          \<and> load dst' dvp (length ?W1) = ?W1
          \<and> (\<forall>j<dvp. dst' j = ?dst1 j)"
    proof (rule IH [where blk = "[]"])
      show "2 * length rest1 + (if length ([] :: byte list) = 254 then 1 else 0)
          < 2 * length rest + (if length blk = 254 then 1 else 0)"
        using less1 by simp
    qed (use r1 sl1 cap lenW in simp_all)
    then obtain dst' where res: "fh_cobs_stuff_loop src n dl
            (index1, 0x01, dvp, Suc dvp, sl + 1, ?dst1, max wr (Suc evp)) =
            \<lparr>cobs_return = of_nat (dvp + length ?W1),
             cobs_error = COBS_SUCCESS, cobs_dst = Some dst',
             cobs_written = max (max wr (Suc evp)) (dvp + length ?W1),
             cobs_read = unat n\<rparr>"
      and wire: "load dst' dvp (length ?W1) = ?W1"
      and below: "\<And>j. j < dvp \<Longrightarrow> dst' j = ?dst1 j"
      by blast
    have "load dst' evp (Suc (length blk + length ?W1)) = ev # blk @ ?W1"
    proof (rule load_close_block [where m = ?dst1])
      show "?dst1 evp = ev" by simp
      show "load ?dst1 (Suc evp) (length blk) = blk"
        using blk by (simp add: load_upd_other)
      show "dst' j = ?dst1 j" if "j < Suc (evp + length blk)" for j
        using that below [of j] dvp by simp
      show "load dst' (Suc (evp + length blk)) (length ?W1) = ?W1"
        using wire dvp by simp
    qed
    then have "load dst' evp (length ?W) = ?W"
      by (simp add: W)
    moreover have "\<forall>j<evp. dst' j = dst j"
      using below dvp by simp
    moreover have "max (max wr (Suc evp)) (dvp + length ?W1) = max wr (evp + length ?W)"
      using lenW dvp by simp
    ultimately show ?thesis
      unfolding res lenW by blast
  qed
  show ?case
  proof (cases "length blk = 254")
    case True
    have "fh_cobs_stuff_loop src n dl (index, ev, evp, dvp, sl, dst, wr) =
         fh_cobs_stuff_loop src n dl
           (index, 0x01, dvp, Suc dvp, sl + 1, dst(evp := ev), max wr (Suc evp))"
      using True ff stuff_loop_flush [OF lt room] by simp
    moreover have "cobs_blocks blk rest = blk # cobs_blocks [] rest"
      using True cobs_blocks_full [of blk d rest'] by (simp add: r)
    ultimately show ?thesis
      using close [of rest index] rest True by simp
  next
    case False
    then have nff: "ev \<noteq> 0xFF"
      by (simp add: ff)
    have ev1: "unat (ev + 1) = Suc (Suc (length blk))"
      using ev len False by (simp add: unat_word_ariths)
    have u1': "unat (index + 1) + length rest' = unat n"
      using rest(2) by (simp add: u1 r)
    have rest1: "load src (unat (index + 1)) (length rest') = rest'"
      using rest' by (simp add: u1)
    consider (data) "d \<noteq> 0" "rest' \<noteq> []" | (data_last) "d \<noteq> 0" "rest' = []"
      | (zero) "d = 0" "rest' \<noteq> []" | (zero_last) "d = 0" "rest' = []"
      by blast
    then show ?thesis
    proof cases
      case data
      let ?dst1 = "dst(dvp := d)"
      have Wd: "cobs_blocks blk rest = cobs_blocks (blk @ [d]) rest'"
        using False data(1) by (simp add: r cobs_blocks_data)
      have step: "fh_cobs_stuff_loop src n dl (index, ev, evp, dvp, sl, dst, wr) =
         fh_cobs_stuff_loop src n dl
           (index + 1, ev + 1, evp, Suc dvp, sl + 1, ?dst1, max wr (Suc dvp))"
        using stuff_loop_data [OF lt _ nff _ room, of src] last data d by simp
      have "\<exists>dst'. fh_cobs_stuff_loop src n dl
              (index + 1, ev + 1, evp, Suc dvp, sl + 1, ?dst1, max wr (Suc dvp)) =
            \<lparr>cobs_return = of_nat (evp + length (cobs_wire (cobs_blocks (blk @ [d]) rest'))),
             cobs_error = COBS_SUCCESS, cobs_dst = Some dst',
             cobs_written = max (max wr (Suc dvp))
               (evp + length (cobs_wire (cobs_blocks (blk @ [d]) rest'))),
             cobs_read = unat n\<rparr>
          \<and> load dst' evp (length (cobs_wire (cobs_blocks (blk @ [d]) rest')))
              = cobs_wire (cobs_blocks (blk @ [d]) rest')
          \<and> (\<forall>j<evp. dst' j = ?dst1 j)"
      proof (rule IH)
        show "2 * length rest' + (if length (blk @ [d]) = 254 then 1 else 0)
            < 2 * length rest + (if length blk = 254 then 1 else 0)"
          using False by (simp add: r)
        show "load ?dst1 (Suc evp) (length (blk @ [d])) = blk @ [d]"
          using blk dvp by (simp add: load_snoc load_upd_other)
      qed (use data u1' rest1 ev1 dvp sl1 cap Wd in simp_all)
      then show ?thesis
        unfolding step Wd [symmetric] using Suc_dvp dvp by (auto simp: max_def)
    next
      case data_last
      let ?dst' = "dst(dvp := d, evp := ev + 1, Suc dvp := 0)"
      have W: "?W = (ev + 1) # blk @ [d, 0]"
        using False data_last ev1 [THEN word_of_unat]
        by (simp add: r cobs_blocks_data del: of_nat_Suc)
      have step: "fh_cobs_stuff_loop src n dl (index, ev, evp, dvp, sl, dst, wr) =
         \<lparr>cobs_return = sl + 2, cobs_error = COBS_SUCCESS, cobs_dst = Some ?dst',
          cobs_written = max (max wr (Suc dvp)) (Suc (Suc dvp)), cobs_read = unat n\<rparr>"
        using stuff_loop_data_last [OF lt _ nff, of src] last data_last d by simp
      have "load ?dst' evp (Suc (length blk + 2)) = (ev + 1) # blk @ [d, 0]"
      proof (rule load_close_block [where m = ?dst'])
        show "?dst' evp = ev + 1"
          using dvp by simp
        show "load ?dst' (Suc evp) (length blk) = blk"
          using blk dvp by (simp add: load_upd_other)
        show "load ?dst' (Suc (evp + length blk)) 2 = [d, 0]"
          using dvp by (simp add: numeral_2_eq_2 load_Cons)
      qed simp
      then have "load ?dst' evp (length ?W) = ?W"
        by (simp add: W)
      moreover have "\<forall>j<evp. ?dst' j = dst j"
        using dvp by simp
      moreover have "sl + 2 = of_nat (evp + length ?W)"
        using dvp by (simp add: W slw)
      moreover have "max (max wr (Suc dvp)) (Suc (Suc dvp)) = max wr (evp + length ?W)"
        using dvp by (simp add: W)
      ultimately show ?thesis
        unfolding step by simp
    next
      case zero
      have "fh_cobs_stuff_loop src n dl (index, ev, evp, dvp, sl, dst, wr) =
         fh_cobs_stuff_loop src n dl
           (index + 1, 0x01, dvp, Suc dvp, sl + 1, dst(evp := ev), max wr (Suc evp))"
        using stuff_loop_zero [OF lt _ nff _ room, of src] last zero d by simp
      moreover have "cobs_blocks blk rest = blk # cobs_blocks [] rest'"
        using False zero(1) by (simp add: r cobs_blocks_zero)
      ultimately show ?thesis
        using close [of rest' "index + 1"] zero(2) u1' rest1 False by (simp add: r)
    next
      case zero_last
      let ?dst' = "dst(evp := ev, dvp := 0x01, Suc dvp := 0)"
      have W: "?W = ev # blk @ [1, 0]"
        using False zero_last by (simp add: r cobs_blocks_zero evw)
      have step: "fh_cobs_stuff_loop src n dl (index, ev, evp, dvp, sl, dst, wr) =
         \<lparr>cobs_return = sl + 2, cobs_error = COBS_SUCCESS, cobs_dst = Some ?dst',
          cobs_written = max (max wr (Suc evp)) (Suc (Suc dvp)), cobs_read = unat n\<rparr>"
        using stuff_loop_zero_last [OF lt _ nff, of src] last zero_last d by simp
      have "load ?dst' evp (Suc (length blk + 2)) = ev # blk @ [1, 0]"
      proof (rule load_close_block [where m = ?dst'])
        show "?dst' evp = ev"
          using dvp by simp
        show "load ?dst' (Suc evp) (length blk) = blk"
          using blk dvp by (simp add: load_upd_other)
        show "load ?dst' (Suc (evp + length blk)) 2 = [1, 0]"
          using dvp by (simp add: numeral_2_eq_2 load_Cons)
      qed simp
      then have "load ?dst' evp (length ?W) = ?W"
        by (simp add: W)
      moreover have "\<forall>j<evp. ?dst' j = dst j"
        using dvp by simp
      moreover have "sl + 2 = of_nat (evp + length ?W)"
        using dvp by (simp add: W slw)
      moreover have "max (max wr (Suc evp)) (Suc (Suc dvp)) = max wr (evp + length ?W)"
        using dvp by (simp add: W)
      ultimately show ?thesis
        unfolding step by simp
    qed
  qed
qed

lemma fh_cobs_stuff_bytes_wire:
  assumes s: "s \<noteq> []" "load src 0 (length s) = s" "unat src_length = length s"
    and cap: "length (cobs_stuffed s) \<le> Suc (unat dst_length)"
      "length (cobs_stuffed s) < 4294967296"
  shows "\<exists>dst'. fh_cobs_stuff_bytes (Some src) src_length (Some dst) dst_length =
            \<lparr>cobs_return = of_nat (length (cobs_stuffed s)),
             cobs_error = COBS_SUCCESS, cobs_dst = Some dst',
             cobs_written = max (unat dst_length) (length (cobs_stuffed s)),
             cobs_read = length s\<rparr>
          \<and> load dst' 0 (length (cobs_stuffed s)) = cobs_stuffed s"
proof -
  have "length ([] :: byte list) + length s + 2 \<le> length (cobs_stuffed s)"
    unfolding cobs_stuffed_def by (rule length_cobs_wire_blocks)
  with s(1) cap(1) have "2 \<le> unat dst_length"
    by (cases s) simp_all
  then have nz: "dst_length \<noteq> 0"
    by auto
  have nz': "src_length \<noteq> 0"
    using s(1,3) by auto
  have "\<exists>dst'. fh_cobs_stuff_loop src src_length dst_length
            (0, 0x01, 0, Suc 0, 1, memset dst 0 0x0 (unat dst_length), unat dst_length) =
            \<lparr>cobs_return = of_nat (0 + length (cobs_wire (cobs_blocks [] s))),
             cobs_error = COBS_SUCCESS, cobs_dst = Some dst',
             cobs_written = max (unat dst_length) (0 + length (cobs_wire (cobs_blocks [] s))),
             cobs_read = unat src_length\<rparr>
          \<and> load dst' 0 (length (cobs_wire (cobs_blocks [] s))) = cobs_wire (cobs_blocks [] s)
          \<and> (\<forall>j<0. dst' j = memset dst 0 0x0 (unat dst_length) j)"
    by (rule stuff_loop_wire) (use s cap in \<open>simp_all add: cobs_stuffed_def\<close>)
  then show ?thesis
    using nz nz' s(3) by (simp add: fh_cobs_stuff_bytes_def cobs_stuffed_def)
qed

subsection \<open>The unstuffing loop, one pass at a time\<close>

lemma unstuff_loop_overflow:
  "dl \<le> ul \<Longrightarrow> ev \<noteq> 0 \<Longrightarrow>
   fh_cobs_unstuff_loop src dl p index ev ul dst dp rd =
     cobs_fail COBS_ERROR_DST_BUFFER_OVERFLOW (Some dst) dp rd"
  by (subst fh_cobs_unstuff_loop.simps) simp

lemma unstuff_loop_copy:
  "\<not> dl \<le> ul \<Longrightarrow> index \<noteq> ev \<Longrightarrow> index + 1 \<noteq> 0 \<Longrightarrow>
   fh_cobs_unstuff_loop src dl p index ev ul dst dp rd =
     fh_cobs_unstuff_loop src dl p (index + 1) ev (ul + 1) (dst(dp := src (p + unat index)))
       (Suc dp) (max rd (Suc (p + unat index)))"
  by (subst fh_cobs_unstuff_loop.simps) (simp add: Let_def)


lemma unstuff_loop_next:
  "\<not> dl \<le> ul \<Longrightarrow> src (p + unat ev) \<noteq> 0 \<Longrightarrow> ev \<noteq> 0xFF \<Longrightarrow>
   fh_cobs_unstuff_loop src dl p ev ev ul dst dp rd =
     fh_cobs_unstuff_loop src dl (p + unat ev) 1 (src (p + unat ev)) (ul + 1) (dst(dp := 0))
       (Suc dp) (max rd (Suc (p + unat ev)))"
  by (subst fh_cobs_unstuff_loop.simps) (simp add: Let_def)

lemma unstuff_loop_next_full:
  "\<not> dl \<le> ul \<Longrightarrow> src (p + 255) \<noteq> 0 \<Longrightarrow>
   fh_cobs_unstuff_loop src dl p 0xFF 0xFF ul dst dp rd =
     fh_cobs_unstuff_loop src dl (p + 255) 1 (src (p + 255)) ul dst dp
       (max rd (Suc (p + 255)))"
  by (subst fh_cobs_unstuff_loop.simps) (simp add: Let_def)

subsection \<open>The unstuffing loop reads the blocks back\<close>

lemma store_Nil [simp]: "store m off [] = m"
  by (rule ext) (auto simp: store_def)

lemma store_Cons: "store m off (x # xs) = store (m(off := x)) (Suc off) xs"
proof (rule ext)
  fix i
  show "store m off (x # xs) i = store (m(off := x)) (Suc off) xs i"
  proof (cases "off < i")
    case True
    then obtain k where "i = Suc (off + k)"
      using less_iff_Suc_add [of off i] by blast
    then show ?thesis
      by (simp add: store_def)
  next
    case False
    then show ?thesis
      by (simp add: store_def)
  qed
qed

lemma store_append: "store m off (xs @ ys) = store (store m off xs) (off + length xs) ys"
proof (induction xs arbitrary: m off)
  case Nil
  show ?case by simp
next
  case (Cons x xs)
  have "store m off ((x # xs) @ ys) = store (m(off := x)) (Suc off) (xs @ ys)"
    by (simp add: store_Cons)
  also have "\<dots> = store (store (m(off := x)) (Suc off) xs) (Suc off + length xs) ys"
    by (rule Cons.IH)
  also have "\<dots> = store (store m off (x # xs)) (off + length (x # xs)) ys"
    by (simp add: store_Cons)
  finally show ?case .
qed

lemma store_snoc: "store m off (xs @ [x]) = (store m off xs)(off + length xs := x)"
  by (simp add: store_append store_Cons)

lemma unat_uint32_add:
  "unat (x :: uint32) + k < 4294967296 \<Longrightarrow> unat (x + of_nat k) = unat x + k"
  by (simp add: unat_word_ariths unsigned_of_nat take_bit_nat_eq_self)

lemma unstuff_loop_block:
  fixes ev :: byte and ul dl :: uint32
  assumes "unat ev = Suc (length b)"
    and "load src (Suc p) (length b) = b"
    and "j \<le> length b"
    and "unat ul + (length b - j) \<le> unat dl"
  shows "\<exists>rd'. fh_cobs_unstuff_loop src dl p (of_nat (Suc j)) ev ul dst dp rd =
           fh_cobs_unstuff_loop src dl p ev ev (ul + of_nat (length b - j))
             (store dst dp (drop j b)) (dp + (length b - j)) rd'"
  using assms
proof (induction "length b - j" arbitrary: j ul dst dp rd)
  case 0
  then have "j = length b"
    by simp
  moreover have "ev = of_nat (Suc (length b))"
    using "0.prems"(1) by (rule word_of_unat)
  ultimately show ?case
    by auto
next
  case (Suc k)
  note ev = Suc.prems(1) and b = Suc.prems(2) and room = Suc.prems(4)
  have j: "j < length b" and k: "k = length b - Suc j" and kj: "length b - j = Suc k"
    using Suc.hyps(2) by simp_all
  have len: "length b \<le> 254"
    using ev unat_byte_less [of ev] by simp
  let ?index = "of_nat (Suc j) :: byte"
  have ui: "unat ?index = Suc j"
    using j len by (intro unat_code_byte) simp
  have ne: "?index \<noteq> ev"
    using ui ev j by (auto simp del: of_nat_Suc)
  have inc: "?index + 1 = of_nat (Suc (Suc j))"
    by simp
  have nz: "?index + 1 \<noteq> 0"
    unfolding inc using j len by (intro code_byte_nonzero) simp
  have lt: "unat ul < unat dl"
    using room kj by simp
  then have nov: "\<not> dl \<le> ul"
    by (simp add: word_le_nat_alt)
  have ul1: "unat (ul + 1) = Suc (unat ul)"
    using lt by (intro unat_less_Suc [of ul dl]) (simp add: word_less_nat_alt)
  have data: "src (p + Suc j) = b ! j"
    using b j by (auto simp: load_eq_iff)
  have step: "fh_cobs_unstuff_loop src dl p ?index ev ul dst dp rd =
     fh_cobs_unstuff_loop src dl p (of_nat (Suc (Suc j))) ev (ul + 1) (dst(dp := b ! j))
       (Suc dp) (max rd (Suc (p + Suc j)))"
    using unstuff_loop_copy [OF nov ne nz, of src p dst dp rd] unfolding inc ui data .
  have "\<exists>rd'. fh_cobs_unstuff_loop src dl p (of_nat (Suc (Suc j))) ev (ul + 1) (dst(dp := b ! j))
       (Suc dp) (max rd (Suc (p + Suc j))) =
     fh_cobs_unstuff_loop src dl p ev ev (ul + 1 + of_nat (length b - Suc j))
       (store (dst(dp := b ! j)) (Suc dp) (drop (Suc j) b)) (Suc dp + (length b - Suc j)) rd'"
    by (rule Suc.hyps(1)) (use k ev b j room ul1 kj in simp_all)
  then obtain rd' where
    "fh_cobs_unstuff_loop src dl p (of_nat (Suc (Suc j))) ev (ul + 1) (dst(dp := b ! j))
       (Suc dp) (max rd (Suc (p + Suc j))) =
     fh_cobs_unstuff_loop src dl p ev ev (ul + 1 + of_nat (length b - Suc j))
       (store (dst(dp := b ! j)) (Suc dp) (drop (Suc j) b)) (Suc dp + (length b - Suc j)) rd'" ..
  moreover have "ul + 1 + of_nat (length b - Suc j) = ul + of_nat (length b - j)"
    unfolding kj k [symmetric] by simp
  moreover have "store (dst(dp := b ! j)) (Suc dp) (drop (Suc j) b) = store dst dp (drop j b)"
    using j by (simp add: store_Cons flip: Cons_nth_drop_Suc)
  moreover have "Suc dp + (length b - Suc j) = dp + (length b - j)"
    using j by simp
  ultimately have "fh_cobs_unstuff_loop src dl p ?index ev ul dst dp rd =
     fh_cobs_unstuff_loop src dl p ev ev (ul + of_nat (length b - j))
       (store dst dp (drop j b)) (dp + (length b - j)) rd'"
    unfolding step by (simp only:)
  then show ?case ..
qed

lemma cobs_wire_split:
  assumes "load src p (length (cobs_wire (b # bs))) = cobs_wire (b # bs)"
  shows "load src (Suc p) (length b) = b"
    and "load src (p + Suc (length b)) (length (cobs_wire bs)) = cobs_wire bs"
    and "src (p + Suc (length b)) = hd (cobs_wire bs)"
proof -
  have "load src p (Suc (length b + length (cobs_wire bs))) =
      of_nat (Suc (length b)) # b @ cobs_wire bs"
    using assms by simp
  then have "load src (Suc p) (length b + length (cobs_wire bs)) = b @ cobs_wire bs"
    unfolding load_Cons by simp
  note split = load_split [OF this refl]
  show "load src (Suc p) (length b) = b"
    by (rule split(1))
  show w: "load src (p + Suc (length b)) (length (cobs_wire bs)) = cobs_wire bs"
    using split(2) by simp
  obtain c cs where "cobs_wire bs = c # cs"
    by (cases "cobs_wire bs") simp_all
  with w show "src (p + Suc (length b)) = hd (cobs_wire bs)"
    by (simp add: load_Cons)
qed






text \<open>
  C5.  A destination exactly one byte smaller than the stuffed form of \<open>s\<close> does not make
  \<open>fh_cobs_stuff_bytes\<close> fail.  For every non-empty \<open>s\<close> it returns the full stuffed length
  with \<open>COBS_SUCCESS\<close>, and the stuffed form is in memory from \<open>dst\<close> on, its terminator at
  offset \<open>dst_length\<close>, one past the end of the destination.  The overflow test of the
  loop asks for \<open>index < src_length\<close>, so it never fires in the pass that consumes the last
  source byte, which is the pass that stores the last code byte and the terminator.
\<close>

theorem fh_cobs_stuff_bytes_one_short:
  assumes "s \<noteq> []" and "load src 0 (length s) = s" and "unat src_length = length s"
    and "Suc (unat dst_length) = length (cobs_stuffed s)"
    and "length (cobs_stuffed s) < 4294967296"
  shows "\<exists>dst'. fh_cobs_stuff_bytes (Some src) src_length (Some dst) dst_length =
            \<lparr>cobs_return = dst_length + 1, cobs_error = COBS_SUCCESS, cobs_dst = Some dst',
             cobs_written = Suc (unat dst_length), cobs_read = length s\<rparr>
          \<and> load dst' 0 (Suc (unat dst_length)) = cobs_stuffed s
          \<and> dst' (unat dst_length) = 0"
proof -
  let ?n = "length (cobs_stuffed s)"
  have "\<exists>dst'. fh_cobs_stuff_bytes (Some src) src_length (Some dst) dst_length =
            \<lparr>cobs_return = of_nat ?n, cobs_error = COBS_SUCCESS, cobs_dst = Some dst',
             cobs_written = max (unat dst_length) ?n, cobs_read = length s\<rparr>
          \<and> load dst' 0 ?n = cobs_stuffed s"
    using assms(4) by (intro fh_cobs_stuff_bytes_wire assms(1-3,5)) simp
  then obtain dst' where
    enc: "fh_cobs_stuff_bytes (Some src) src_length (Some dst) dst_length =
            \<lparr>cobs_return = of_nat ?n, cobs_error = COBS_SUCCESS, cobs_dst = Some dst',
             cobs_written = max (unat dst_length) ?n, cobs_read = length s\<rparr>"
    and wire: "load dst' 0 (Suc (unat dst_length)) = cobs_stuffed s"
    unfolding assms(4) [symmetric] by blast
  have "(of_nat ?n :: uint32) = dst_length + 1"
    unfolding assms(4) [symmetric] by simp
  moreover have "max (unat dst_length) ?n = Suc (unat dst_length)"
    unfolding assms(4) [symmetric] by simp
  moreover have "dst' (unat dst_length) = 0"
  proof -
    have "last (cobs_stuffed s) = 0"
      unfolding cobs_stuffed_def
    proof (rule cobs_wire_zero [THEN conjunct2])
      fix b
      assume "b \<in> set (cobs_blocks [] s)"
      then show "length b \<le> 254 \<and> 0 \<notin> set b"
        using cobs_blocks_length [of "[]" b s] cobs_blocks_nonzero [of "[]" b s] by simp
    qed
    moreover have "last (load dst' 0 (Suc (unat dst_length))) = dst' (unat dst_length)"
      by (simp add: load_snoc)
    ultimately show ?thesis
      by (simp add: wire)
  qed
  ultimately show ?thesis
    using enc wire by auto
qed

theorem fh_cobs_stuff_bytes_one_short_witness:
  "\<exists>dst'. fh_cobs_stuff_bytes (Some (mem_of [0x01])) 1 (Some (\<lambda>_. 0xAA)) 2 =
            \<lparr>cobs_return = 3, cobs_error = COBS_SUCCESS, cobs_dst = Some dst',
             cobs_written = 3, cobs_read = 1\<rparr>
          \<and> load dst' 0 3 = [0x02, 0x01, 0x00]
          \<and> dst' 2 = 0"
proof -
  let ?s = "[0x01] :: byte list"
  have st: "cobs_stuffed ?s = [0x02, 0x01, 0x00]"
    by (simp add: cobs_stuffed_def cobs_blocks.simps(2))
  have len: "length ?s = 1" "length [0x02, 0x01, 0x00 :: byte] = 3"
    by simp_all
  have two: "unat (2 :: uint32) = 2" "Suc 2 = 3"
    by simp_all
  show ?thesis
    using fh_cobs_stuff_bytes_one_short [where s = ?s and src = "mem_of ?s" and src_length = 1
        and dst_length = 2 and dst = "\<lambda>_. 0xAA", OF _ load_mem_of]
    unfolding st len two by simp
qed

subsection \<open>Unstuffing into a destination that is not larger than the output\<close>

lemma unstuff_loop_block_overflow:
  fixes ev :: byte and ul dl :: uint32
  assumes "unat ev = Suc (length b)"
    and "load src (Suc p) (length b) = b"
    and "j \<le> length b"
    and "unat ul \<le> unat dl"
    and "unat dl \<le> unat ul + (length b - j)"
  shows "\<exists>dst' rd'. fh_cobs_unstuff_loop src dl p (of_nat (Suc j)) ev ul dst dp rd =
           cobs_fail COBS_ERROR_DST_BUFFER_OVERFLOW (Some dst') (dp + (unat dl - unat ul)) rd'"
  using assms
proof (induction "unat dl - unat ul" arbitrary: j ul dst dp rd)
  case 0
  then have "dl \<le> ul"
    by (simp add: word_le_nat_alt)
  moreover have "ev \<noteq> 0"
    using "0.prems"(1) by auto
  ultimately have "fh_cobs_unstuff_loop src dl p (of_nat (Suc j)) ev ul dst dp rd =
      cobs_fail COBS_ERROR_DST_BUFFER_OVERFLOW (Some dst) (dp + (unat dl - unat ul)) rd"
    using "0.hyps" by (simp add: unstuff_loop_overflow)
  then show ?case
    by blast
next
  case (Suc k)
  note ev = Suc.prems(1) and b = Suc.prems(2) and room = Suc.prems(5)
  have lt: "unat ul < unat dl"
    using Suc.hyps(2) by simp
  then have j: "j < length b"
    using room by simp
  have len: "length b \<le> 254"
    using ev unat_byte_less [of ev] by simp
  let ?index = "of_nat (Suc j) :: byte"
  have ui: "unat ?index = Suc j"
    using j len by (intro unat_code_byte) simp
  have ne: "?index \<noteq> ev"
    using ui ev j by (auto simp del: of_nat_Suc)
  have inc: "?index + 1 = of_nat (Suc (Suc j))"
    by simp
  have nz: "?index + 1 \<noteq> 0"
    unfolding inc using j len by (intro code_byte_nonzero) simp
  have nov: "\<not> dl \<le> ul"
    using lt by (simp add: word_le_nat_alt)
  have ul1: "unat (ul + 1) = Suc (unat ul)"
    using lt by (intro unat_less_Suc [of ul dl]) (simp add: word_less_nat_alt)
  have step: "fh_cobs_unstuff_loop src dl p ?index ev ul dst dp rd =
     fh_cobs_unstuff_loop src dl p (of_nat (Suc (Suc j))) ev (ul + 1)
       (dst(dp := src (p + Suc j))) (Suc dp) (max rd (Suc (p + Suc j)))"
    using unstuff_loop_copy [OF nov ne nz, of src p dst dp rd] unfolding inc ui .
  have "\<exists>dst' rd'. fh_cobs_unstuff_loop src dl p (of_nat (Suc (Suc j))) ev (ul + 1)
       (dst(dp := src (p + Suc j))) (Suc dp) (max rd (Suc (p + Suc j))) =
     cobs_fail COBS_ERROR_DST_BUFFER_OVERFLOW (Some dst') (Suc dp + (unat dl - unat (ul + 1))) rd'"
    by (rule Suc.hyps(1)) (use Suc.hyps(2) ev b j room lt ul1 in simp_all)
  then obtain dst' rd' where
    "fh_cobs_unstuff_loop src dl p (of_nat (Suc (Suc j))) ev (ul + 1)
       (dst(dp := src (p + Suc j))) (Suc dp) (max rd (Suc (p + Suc j))) =
     cobs_fail COBS_ERROR_DST_BUFFER_OVERFLOW (Some dst') (Suc dp + (unat dl - unat (ul + 1))) rd'"
    by blast
  moreover have "Suc dp + (unat dl - unat (ul + 1)) = dp + (unat dl - unat ul)"
    using lt ul1 by simp
  ultimately have "fh_cobs_unstuff_loop src dl p ?index ev ul dst dp rd =
     cobs_fail COBS_ERROR_DST_BUFFER_OVERFLOW (Some dst') (dp + (unat dl - unat ul)) rd'"
    unfolding step by (simp only:)
  then show ?case
    by blast
qed

lemma unstuff_loop_blocks_overflow:
  fixes ul dl :: uint32
  assumes "load src p (length (cobs_wire (b # bs))) = cobs_wire (b # bs)"
    and "\<forall>x\<in>set (b # bs). length x \<le> 254"
    and "unat ul \<le> unat dl"
    and "unat dl \<le> unat ul + length (cobs_unblocks (b # bs))"
  shows "\<exists>dst' rd'. fh_cobs_unstuff_loop src dl p 1 (of_nat (Suc (length b))) ul dst dp rd =
           cobs_fail COBS_ERROR_DST_BUFFER_OVERFLOW (Some dst') (dp + (unat dl - unat ul)) rd'"
  using assms
proof (induction bs arbitrary: b p ul dst dp rd)
  case Nil
  let ?ev = "of_nat (Suc (length b)) :: byte"
  have "length b \<le> 254"
    using Nil.prems(2) by simp
  then have ev: "unat ?ev = Suc (length b)"
    by (rule unat_code_byte)
  show ?case
    using unstuff_loop_block_overflow [where j = 0 and dst = dst and dp = dp and rd = rd,
        OF ev cobs_wire_split(1) [OF Nil.prems(1)] le0 Nil.prems(3)] Nil.prems(4)
    by simp
next
  case (Cons b' bs)
  let ?ev = "of_nat (Suc (length b)) :: byte"
  let ?ul = "ul + of_nat (length b)"
  let ?ev' = "of_nat (Suc (length b')) :: byte"
  let ?U' = "cobs_unblocks (b' # bs)"
  have len: "length b \<le> 254" and len': "length b' \<le> 254"
    and lens: "\<forall>x\<in>set (b' # bs). length x \<le> 254"
    using Cons.prems(2) by simp_all
  have ev: "unat ?ev = Suc (length b)"
    using len by (rule unat_code_byte)
  have U: "cobs_unblocks (b # b' # bs) = b @ (if length b = 254 then [] else [0]) @ ?U'"
    by simp
  have room: "unat dl \<le> unat ul + length b + (if length b = 254 then 0 else 1) + length ?U'"
    using Cons.prems(4) unfolding U by (simp split: if_splits)
  show ?case
  proof (cases "unat dl \<le> unat ul + length b")
    case True
    show ?thesis
      using unstuff_loop_block_overflow [where j = 0 and dst = dst and dp = dp and rd = rd,
          OF ev cobs_wire_split(1) [OF Cons.prems(1)] le0 Cons.prems(3)] True
      by simp
  next
    case False
    then have fits: "unat ul + length b < unat dl"
      by simp
    have ul: "unat ?ul = unat ul + length b"
      using fits unat_uint32_less [of dl] by (intro unat_uint32_add) simp
    have "\<exists>rd'. fh_cobs_unstuff_loop src dl p (of_nat (Suc 0)) ?ev ul dst dp rd =
       fh_cobs_unstuff_loop src dl p ?ev ?ev (ul + of_nat (length b - 0))
         (store dst dp (drop 0 b)) (dp + (length b - 0)) rd'"
      using fits by (intro unstuff_loop_block ev cobs_wire_split(1) [OF Cons.prems(1)]) simp_all
    then obtain rd1 where block: "fh_cobs_unstuff_loop src dl p 1 ?ev ul dst dp rd =
       fh_cobs_unstuff_loop src dl p ?ev ?ev ?ul (store dst dp b) (dp + length b) rd1"
      by auto
    have code: "src (p + unat ?ev) = ?ev'"
      using cobs_wire_split(3) [OF Cons.prems(1)] by (simp only: ev) simp
    have code_nz: "src (p + unat ?ev) \<noteq> 0"
      unfolding code using len' by (rule code_byte_nonzero)
    have nov: "\<not> dl \<le> ?ul"
      using fits ul by (simp add: word_le_nat_alt)
    have wire': "load src (p + Suc (length b)) (length (cobs_wire (b' # bs))) = cobs_wire (b' # bs)"
      by (rule cobs_wire_split(2) [OF Cons.prems(1)])
    show ?thesis
    proof (cases "length b = 254")
      case True
      have ff: "?ev = 0xFF"
        using True by simp
      have step: "fh_cobs_unstuff_loop src dl p ?ev ?ev ?ul (store dst dp b) (dp + length b) rd1 =
         fh_cobs_unstuff_loop src dl (p + Suc (length b)) 1 ?ev' ?ul (store dst dp b)
           (dp + length b) (max rd1 (Suc (p + 255)))"
        using unstuff_loop_next_full [OF nov, of src p "store dst dp b" "dp + length b" rd1]
          code code_nz True by (simp add: ff)
      have "\<exists>dst' rd'. fh_cobs_unstuff_loop src dl (p + Suc (length b)) 1 ?ev' ?ul (store dst dp b)
           (dp + length b) (max rd1 (Suc (p + 255))) =
         cobs_fail COBS_ERROR_DST_BUFFER_OVERFLOW (Some dst') (dp + length b + (unat dl - unat ?ul)) rd'"
      proof (intro Cons.IH wire' lens)
        show "unat ?ul \<le> unat dl"
          using fits unfolding ul by simp
        show "unat dl \<le> unat ?ul + length ?U'"
          using room True unfolding ul by simp
      qed
      then obtain dst' rd' where
        "fh_cobs_unstuff_loop src dl (p + Suc (length b)) 1 ?ev' ?ul (store dst dp b)
           (dp + length b) (max rd1 (Suc (p + 255))) =
         cobs_fail COBS_ERROR_DST_BUFFER_OVERFLOW (Some dst') (dp + length b + (unat dl - unat ?ul)) rd'"
        by blast
      moreover have "dp + length b + (unat dl - unat ?ul) = dp + (unat dl - unat ul)"
        using fits unfolding ul by simp
      ultimately have "fh_cobs_unstuff_loop src dl p 1 ?ev ul dst dp rd =
         cobs_fail COBS_ERROR_DST_BUFFER_OVERFLOW (Some dst') (dp + (unat dl - unat ul)) rd'"
        unfolding block step by (simp only:)
      then show ?thesis
        by blast
    next
      case False
      have nff: "?ev \<noteq> 0xFF"
        using ev False by (auto simp del: of_nat_Suc)
      have step: "fh_cobs_unstuff_loop src dl p ?ev ?ev ?ul (store dst dp b) (dp + length b) rd1 =
         fh_cobs_unstuff_loop src dl (p + Suc (length b)) 1 ?ev' (?ul + 1)
           ((store dst dp b)(dp + length b := 0)) (Suc (dp + length b))
           (max rd1 (Suc (p + Suc (length b))))"
        using unstuff_loop_next [where src = src and p = p and ev = ?ev and dl = dl and ul = ?ul
            and dst = "store dst dp b" and dp = "dp + length b" and rd = rd1, OF nov code_nz nff]
          code [unfolded ev]
        by (simp only: ev)
      have ul1: "unat (?ul + 1) = Suc (unat ul + length b)"
        using fits ul unat_uint32_less [of dl] unat_uint32_Suc [of ?ul] by simp
      have "\<exists>dst' rd'. fh_cobs_unstuff_loop src dl (p + Suc (length b)) 1 ?ev' (?ul + 1)
           ((store dst dp b)(dp + length b := 0)) (Suc (dp + length b))
           (max rd1 (Suc (p + Suc (length b)))) =
         cobs_fail COBS_ERROR_DST_BUFFER_OVERFLOW (Some dst')
           (Suc (dp + length b) + (unat dl - unat (?ul + 1))) rd'"
      proof (intro Cons.IH wire' lens)
        show "unat (?ul + 1) \<le> unat dl"
          using fits unfolding ul1 by simp
        show "unat dl \<le> unat (?ul + 1) + length ?U'"
          using room False unfolding ul1 by simp
      qed
      then obtain dst' rd' where
        "fh_cobs_unstuff_loop src dl (p + Suc (length b)) 1 ?ev' (?ul + 1)
           ((store dst dp b)(dp + length b := 0)) (Suc (dp + length b))
           (max rd1 (Suc (p + Suc (length b)))) =
         cobs_fail COBS_ERROR_DST_BUFFER_OVERFLOW (Some dst')
           (Suc (dp + length b) + (unat dl - unat (?ul + 1))) rd'"
        by blast
      moreover have "Suc (dp + length b) + (unat dl - unat (?ul + 1)) = dp + (unat dl - unat ul)"
        using fits unfolding ul1 by simp
      ultimately have "fh_cobs_unstuff_loop src dl p 1 ?ev ul dst dp rd =
         cobs_fail COBS_ERROR_DST_BUFFER_OVERFLOW (Some dst') (dp + (unat dl - unat ul)) rd'"
        unfolding block step by (simp only:)
      then show ?thesis
        by blast
    qed
  qed
qed

text \<open>
  With a destination of at least one byte and at most as many bytes as \<open>s\<close> has,
  \<open>fh_cobs_unstuff_bytes\<close> on the stuffed form of \<open>s\<close> fails with
  \<open>COBS_ERROR_DST_BUFFER_OVERFLOW\<close>, having filled the destination and not written past it.
\<close>

lemma fh_cobs_unstuff_bytes_short:
  assumes wire: "load src 0 (length (cobs_stuffed s)) = cobs_stuffed s"
    and n: "src_length \<noteq> 0"
    and room: "dst_length \<noteq> 0" "unat dst_length \<le> length s"
  shows "\<exists>dst' rd. fh_cobs_unstuff_bytes (Some src) src_length (Some dst) dst_length =
           \<lparr>cobs_return = 0, cobs_error = COBS_ERROR_DST_BUFFER_OVERFLOW,
            cobs_dst = Some dst', cobs_written = unat dst_length, cobs_read = rd\<rparr>"
proof -
  obtain b bs where blocks: "cobs_blocks [] s = b # bs"
    by (cases "cobs_blocks [] s") simp_all
  have w: "load src 0 (length (cobs_wire (b # bs))) = cobs_wire (b # bs)"
    using wire by (simp add: cobs_stuffed_def blocks)
  then have "load src 0 (Suc (length b + length (cobs_wire bs))) =
      of_nat (Suc (length b)) # b @ cobs_wire bs"
    by simp
  then have first: "src 0 = of_nat (Suc (length b))"
    unfolding load_Cons by simp
  have lens: "\<forall>x\<in>set (b # bs). length x \<le> 254"
    using cobs_blocks_length [of "[]" _ s] by (simp add: blocks)
  have un: "cobs_unblocks (b # bs) = s"
    using cobs_unblocks_blocks [of "[]" s] by (simp add: blocks)
  have "\<exists>dst' rd'. fh_cobs_unstuff_loop src dst_length 0 1 (of_nat (Suc (length b))) 0 dst 0 1 =
     cobs_fail COBS_ERROR_DST_BUFFER_OVERFLOW (Some dst') (0 + (unat dst_length - unat (0 :: uint32))) rd'"
  proof (rule unstuff_loop_blocks_overflow [OF w lens])
    show "unat (0 :: uint32) \<le> unat dst_length"
      by simp
    show "unat dst_length \<le> unat (0 :: uint32) + length (cobs_unblocks (b # bs))"
      using room(2) by (simp add: un)
  qed
  then show ?thesis
    using n room(1) by (simp add: fh_cobs_unstuff_bytes_def first cobs_fail_def)
qed


end
